theory Spec2Isabelle
  imports Main "HOL-Library.AList"
begin

section \<open>Data model\<close>

text \<open>
  The two source units are \<^verbatim>\<open>acceptReject.ts\<close> (the span locator and the accept/reject
  commands) and the suggestion-mode plugin (\<^verbatim>\<open>appendTransaction\<close> and the plugin state).
  Both are written against the ProseMirror document library, which is not part of the
  repository. The library is modelled here for documents whose top node holds inline
  content directly (text nodes and inline leaves): positions are then offsets into the
  sequence of inline nodes, every replace fits trivially, and the position maps are the
  ones the library computes. Everything under ``Library model'' follows the behaviour of
  the library function named in its comment; everything under ``Source'' follows the
  repository's code line by line.
\<close>

text \<open>A JavaScript string is a sequence of UTF-16 code units.\<close>

type_synonym jsstring = "nat list"

text \<open>An attribute object \<^verbatim>\<open>Record<string, any>\<close>: its entries in insertion order.\<close>

type_synonym mdata = "(string \<times> string) list"

text \<open>
  A mark. The source keys a \<^verbatim>\<open>Map\<close> by the mark object, so object identity matters:
  \<open>mark_id\<close> is the handle of the object, the other fields are what \<^verbatim>\<open>Mark.eq\<close>
  compares (the type and the attributes \<^verbatim>\<open>{username, data}\<close>).
\<close>

record mark =
  mark_id :: nat
  mark_type :: string
  mark_username :: string
  mark_data :: mdata

datatype node =
    Text (node_marks: "mark list") (node_text: jsstring)
  | Leaf (node_marks: "mark list") (leaf_name: string)

type_synonym fragment = "node list"

text \<open>
  What the schema says about mark types: the rank that orders a mark set, which types
  exclude which, and whether a mark is inclusive at its end.
\<close>

record schema =
  mark_rank :: "string \<Rightarrow> nat"
  mark_excludes :: "string \<Rightarrow> string \<Rightarrow> bool"
  mark_inclusive :: "string \<Rightarrow> bool"

datatype error = TypeError | RangeError

datatype step =
    ReplaceStep nat nat fragment
  | ReplaceAroundStep nat nat nat nat fragment nat
  | AddMarkStep nat nat mark
  | RemoveMarkStep nat nat mark

text \<open>
  The value a transaction stores under \<^verbatim>\<open>suggestionTransactionKey\<close>: every field is
  optional.
\<close>

record tmeta =
  m_inSuggestionMode :: "bool option"
  m_username :: "string option"
  m_data :: "mdata option"
  m_skipSuggestionOperation :: "bool option"

text \<open>
  A transaction: the current document, the steps applied so far, the metadata the source
  reads (\<^verbatim>\<open>history$\<close>, \<^verbatim>\<open>suggestionTransactionKey\<close>, \<^verbatim>\<open>suggestionPluginKey\<close>) and
  the selection when one was set explicitly.
\<close>

record transaction =
  tr_doc :: fragment
  tr_steps :: "step list"
  tr_history :: bool
  tr_meta :: "tmeta option"
  tr_plugin_meta :: "tmeta option"
  tr_selection :: "nat option"

record plugin_state =
  inSuggestionMode :: bool
  ps_username :: string
  ps_data :: mdata

record editor_state =
  es_doc :: fragment
  es_selection_from :: nat
  es_plugin :: plugin_state
  es_schema :: schema

record marked_range =
  mr_mark :: mark
  mr_from :: nat
  mr_to :: nat

section \<open>Library model\<close>

subsection \<open>Marks and mark sets\<close>

text \<open>\<^verbatim>\<open>compareDeep\<close> on two attribute objects: the same keys with the same values.\<close>

definition data_eq :: "mdata \<Rightarrow> mdata \<Rightarrow> bool" where
  "data_eq a b = list_all (\<lambda>k. map_of a k = map_of b k) (map fst a @ map fst b)"

text \<open>\<^verbatim>\<open>Mark.eq\<close>: the same type and deeply equal attributes.\<close>

definition mark_eq :: "mark \<Rightarrow> mark \<Rightarrow> bool" where
  "mark_eq a b =
     (mark_type a = mark_type b \<and> mark_username a = mark_username b
      \<and> data_eq (mark_data a) (mark_data b))"

text \<open>\<^verbatim>\<open>Mark.sameSet\<close>: equal length and pairwise \<^verbatim>\<open>eq\<close>.\<close>

definition same_set :: "mark list \<Rightarrow> mark list \<Rightarrow> bool" where
  "same_set a b = list_all2 mark_eq a b"

text \<open>\<^verbatim>\<open>Mark.isInSet\<close>.\<close>

definition is_in_set :: "mark \<Rightarrow> mark list \<Rightarrow> bool" where
  "is_in_set m ms = list_ex (mark_eq m) ms"

text \<open>\<^verbatim>\<open>Mark.removeFromSet\<close>: drops the first mark that is \<^verbatim>\<open>eq\<close>.\<close>

fun remove_from_set :: "mark \<Rightarrow> mark list \<Rightarrow> mark list" where
  "remove_from_set m [] = []"
| "remove_from_set m (x # xs) = (if mark_eq m x then xs else x # remove_from_set m xs)"

text \<open>
  \<^verbatim>\<open>Mark.addToSet\<close>. The loop runs over the set with the copy built so far and the flag
  \<^verbatim>\<open>placed\<close>; it leaves early with the unchanged set when the mark is already there or
  an existing mark excludes it.
\<close>

fun add_to_set_loop ::
  "schema \<Rightarrow> mark \<Rightarrow> mark list \<Rightarrow> mark list \<Rightarrow> bool \<Rightarrow> mark list option" where
  "add_to_set_loop sch m [] copy placed = Some (if placed then copy else copy @ [m])"
| "add_to_set_loop sch m (other # rest) copy placed =
     (if mark_eq m other then None
      else if mark_excludes sch (mark_type m) (mark_type other)
        then add_to_set_loop sch m rest copy placed
      else if mark_excludes sch (mark_type other) (mark_type m) then None
      else if \<not> placed \<and> mark_rank sch (mark_type other) > mark_rank sch (mark_type m)
        then add_to_set_loop sch m rest (copy @ [m, other]) True
      else add_to_set_loop sch m rest (copy @ [other]) placed)"

definition add_to_set :: "schema \<Rightarrow> mark \<Rightarrow> mark list \<Rightarrow> mark list" where
  "add_to_set sch m ms = (case add_to_set_loop sch m ms [] False of None \<Rightarrow> ms | Some c \<Rightarrow> c)"

subsection \<open>Nodes and fragments\<close>

fun node_size :: "node \<Rightarrow> nat" where
  "node_size (Text ms t) = length t"
| "node_size (Leaf ms n) = 1"

definition frag_size :: "fragment \<Rightarrow> nat" where
  "frag_size d = sum_list (map node_size d)"

fun set_marks :: "mark list \<Rightarrow> node \<Rightarrow> node" where
  "set_marks ms (Text old t) = Text ms t"
| "set_marks ms (Leaf old n) = Leaf ms n"

text \<open>
  \<^verbatim>\<open>Fragment.nodesBetween(from, to, f)\<close> on inline content: the callback sees every child
  that ends after \<open>from\<close> and starts before \<open>to\<close>, with its start position. The loop
  runs while \<open>pos < to\<close> and reads \<^verbatim>\<open>content[i].nodeSize\<close>, so it fails with a
  \<^verbatim>\<open>TypeError\<close> when \<open>to\<close> lies beyond the content.
\<close>

fun nodes_between_loop :: "nat \<Rightarrow> nat \<Rightarrow> nat \<Rightarrow> fragment \<Rightarrow> error + (node \<times> nat) list" where
  "nodes_between_loop pos from to [] = (if pos < to then Inl TypeError else Inr [])"
| "nodes_between_loop pos from to (child # rest) =
     (if pos < to then
        (case nodes_between_loop (pos + node_size child) from to rest of
           Inl e \<Rightarrow> Inl e
         | Inr vs \<Rightarrow> Inr (if pos + node_size child > from then (child, pos) # vs else vs))
      else Inr [])"

definition nodes_between :: "fragment \<Rightarrow> nat \<Rightarrow> nat \<Rightarrow> error + (node \<times> nat) list" where
  "nodes_between d from to = nodes_between_loop 0 from to d"

text \<open>
  A position splits the content into the children before it, the text node it lies
  strictly inside (with the offset into that node), and the children after it.
\<close>

fun frag_split :: "fragment \<Rightarrow> nat \<Rightarrow> fragment \<times> (node \<times> nat) option \<times> fragment" where
  "frag_split [] pos = ([], None, [])"
| "frag_split (c # cs) pos =
     (if pos = 0 then ([], None, c # cs)
      else if pos < node_size c then ([], Some (c, pos), cs)
      else (case frag_split cs (pos - node_size c) of (a, m, b) \<Rightarrow> (c # a, m, b)))"

text \<open>\<^verbatim>\<open>TextNode.cut(from, to)\<close>; a leaf is never cut.\<close>

fun node_cut :: "node \<Rightarrow> nat \<Rightarrow> nat \<Rightarrow> node" where
  "node_cut (Text ms t) a b = Text ms (take (b - a) (drop a t))"
| "node_cut (Leaf ms n) a b = Leaf ms n"

text \<open>\<^verbatim>\<open>Fragment.cut(0, pos)\<close> and \<^verbatim>\<open>Fragment.cut(pos)\<close>.\<close>

definition cut_before :: "fragment \<Rightarrow> nat \<Rightarrow> fragment" where
  "cut_before d pos =
     (case frag_split d pos of
        (a, None, b) \<Rightarrow> a
      | (a, Some (c, off), b) \<Rightarrow> a @ [node_cut c 0 off])"

definition cut_after :: "fragment \<Rightarrow> nat \<Rightarrow> fragment" where
  "cut_after d pos =
     (case frag_split d pos of
        (a, None, b) \<Rightarrow> b
      | (a, Some (c, off), b) \<Rightarrow> node_cut c off (node_size c) # b)"

text \<open>\<^verbatim>\<open>Fragment.cut(from, to)\<close>: empty unless \<open>to > from\<close>.\<close>

definition frag_cut :: "fragment \<Rightarrow> nat \<Rightarrow> nat \<Rightarrow> fragment" where
  "frag_cut d from to = (if to > from then cut_before (cut_after d from) (to - from) else [])"

text \<open>
  \<^verbatim>\<open>Node.slice(from, to)\<close>: both positions are resolved first, which throws a
  \<^verbatim>\<open>RangeError\<close> for a position outside the document.
\<close>

definition doc_slice :: "fragment \<Rightarrow> nat \<Rightarrow> nat \<Rightarrow> error + fragment" where
  "doc_slice d from to =
     (if from > frag_size d \<or> to > frag_size d then Inl RangeError
      else Inr (frag_cut d from to))"

text \<open>
  Two adjacent text nodes with the same mark set are joined. The library does this in
  two places that differ in which node's mark objects survive: \<^verbatim>\<open>addNode\<close> (used by
  \<^verbatim>\<open>replaceTwoWay\<close>) and \<^verbatim>\<open>Fragment.fromArray\<close> keep the right node's marks,
  \<^verbatim>\<open>Fragment.append\<close> keeps the left node's.
\<close>

fun add_node :: "fragment \<Rightarrow> node \<Rightarrow> fragment" where
  "add_node [] child = [child]"
| "add_node [Text ms1 t1] (Text ms2 t2) =
     (if same_set ms2 ms1 then [Text ms2 (t1 @ t2)] else [Text ms1 t1, Text ms2 t2])"
| "add_node [n] child = [n, child]"
| "add_node (n # n' # ns) child = n # add_node (n' # ns) child"

definition from_array :: "fragment \<Rightarrow> fragment" where
  "from_array ns = foldl add_node [] ns"

fun append_join :: "fragment \<Rightarrow> fragment \<Rightarrow> fragment" where
  "append_join [Text ms1 t1] (Text ms2 t2 # rest) =
     (if same_set ms1 ms2 then Text ms1 (t1 @ t2) # rest else Text ms1 t1 # Text ms2 t2 # rest)"
| "append_join [n] other = n # other"
| "append_join [] other = other"
| "append_join (n # n' # ns) other = n # append_join (n' # ns) other"

definition frag_append :: "fragment \<Rightarrow> fragment \<Rightarrow> fragment" where
  "frag_append a b =
     (if frag_size b = 0 then a else if frag_size a = 0 then b else append_join a b)"

text \<open>
  \<^verbatim>\<open>Node.replace(from, to, slice)\<close> for a closed slice: an empty slice goes through
  \<^verbatim>\<open>replaceTwoWay\<close>, any other through \<^verbatim>\<open>cut(0, from).append(slice).append(cut(to))\<close>.
\<close>

definition doc_replace :: "fragment \<Rightarrow> nat \<Rightarrow> nat \<Rightarrow> fragment \<Rightarrow> error + fragment" where
  "doc_replace d from to slice =
     (if from > frag_size d \<or> to > frag_size d then Inl RangeError
      else if frag_size slice = 0
        then Inr (foldl add_node [] (cut_before d from @ cut_after d to))
      else Inr (frag_append (frag_append (cut_before d from) slice) (cut_after d to)))"

text \<open>
  What \<^verbatim>\<open>AddMarkStep.apply\<close> and \<^verbatim>\<open>RemoveMarkStep.apply\<close> share: the slice of the
  range is mapped node by node, rebuilt with \<^verbatim>\<open>Fragment.fromArray\<close> and put back with
  \<^verbatim>\<open>Node.replace\<close>.
\<close>

definition map_marks_range ::
  "(mark list \<Rightarrow> mark list) \<Rightarrow> fragment \<Rightarrow> nat \<Rightarrow> nat \<Rightarrow> error + fragment" where
  "map_marks_range g d from to =
     (case doc_slice d from to of
        Inl e \<Rightarrow> Inl e
      | Inr sl \<Rightarrow> doc_replace d from to (from_array (map (\<lambda>n. set_marks (g (node_marks n)) n) sl)))"

text \<open>
  \<^verbatim>\<open>ResolvedPos.marks()\<close>: inside a text node its marks; at a boundary the marks of the
  node before (of the node after when there is none before), without the non-inclusive
  marks that the other side does not carry.
\<close>

definition drop_non_inclusive :: "schema \<Rightarrow> mark list \<Rightarrow> node option \<Rightarrow> mark list" where
  "drop_non_inclusive sch ms other =
     filter (\<lambda>m. \<not> (\<not> mark_inclusive sch (mark_type m)
                    \<and> (case other of None \<Rightarrow> True | Some n \<Rightarrow> \<not> is_in_set m (node_marks n)))) ms"

definition marks_at :: "schema \<Rightarrow> fragment \<Rightarrow> nat \<Rightarrow> error + mark list" where
  "marks_at sch d pos =
     (if pos > frag_size d then Inl RangeError
      else if frag_size d = 0 then Inr []
      else (case frag_split d pos of
              (a, Some (c, off), b) \<Rightarrow> Inr (node_marks c)
            | (a, None, b) \<Rightarrow>
                (if a = [] then
                   (case b of [] \<Rightarrow> Inr [] | n # ns \<Rightarrow> Inr (drop_non_inclusive sch (node_marks n) None))
                 else Inr (drop_non_inclusive sch (node_marks (last a))
                             (case b of [] \<Rightarrow> None | n # ns \<Rightarrow> Some n)))))"

text \<open>
  \<^verbatim>\<open>Fragment.textBetween(0, size, '\n', '\n')\<close> on inline content: the text of the text
  nodes, and the leaf text (a line feed, code unit 10) for every leaf.
\<close>

fun node_text_between :: "node \<Rightarrow> jsstring" where
  "node_text_between (Text ms t) = t"
| "node_text_between (Leaf ms n) = [10]"

definition text_between :: "fragment \<Rightarrow> jsstring" where
  "text_between sl = concat (map node_text_between sl)"

text \<open>
  The code units the regular expression class \<^verbatim>\<open>\s\<close> matches: the ECMAScript
  white space and line terminator code points.
\<close>

definition is_space :: "nat \<Rightarrow> bool" where
  "is_space c =
     (c = 9 \<or> c = 10 \<or> c = 11 \<or> c = 12 \<or> c = 13 \<or> c = 32 \<or> c = 160 \<or> c = 5760
      \<or> (8192 \<le> c \<and> c \<le> 8202) \<or> c = 8232 \<or> c = 8233 \<or> c = 8239 \<or> c = 8287
      \<or> c = 12288 \<or> c = 65279)"

subsection \<open>Steps, step maps and transforms\<close>

text \<open>
  \<^verbatim>\<open>StepMap.map(pos, assoc)\<close> over the ranges \<open>(start, oldSize, newSize)\<close> of a
  map that is not inverted.
\<close>

fun stepmap_map :: "(nat \<times> nat \<times> nat) list \<Rightarrow> int \<Rightarrow> nat \<Rightarrow> int \<Rightarrow> int" where
  "stepmap_map [] diff pos assoc = int pos + diff"
| "stepmap_map ((start, oldSize, newSize) # rs) diff pos assoc =
     (if start > pos then int pos + diff
      else if pos \<le> start + oldSize then
        (let side = (if oldSize = 0 then assoc
                     else if pos = start then - 1
                     else if pos = start + oldSize then 1 else assoc)
         in int start + diff + (if side < 0 then 0 else int newSize))
      else stepmap_map rs (diff + int newSize - int oldSize) pos assoc)"

text \<open>\<^verbatim>\<open>Step.getMap()\<close>.\<close>

fun step_map :: "step \<Rightarrow> (nat \<times> nat \<times> nat) list" where
  "step_map (ReplaceStep from to slice) = [(from, to - from, frag_size slice)]"
| "step_map (ReplaceAroundStep from to gapFrom gapTo slice ins) =
     [(from, gapFrom - from, ins), (gapTo, to - gapTo, frag_size slice - ins)]"
| "step_map (AddMarkStep from to m) = []"
| "step_map (RemoveMarkStep from to m) = []"

text \<open>\<^verbatim>\<open>Mapping.map(pos)\<close> with the default \<^verbatim>\<open>assoc = 1\<close>: through every map in turn.\<close>

definition mapping_map :: "(nat \<times> nat \<times> nat) list list \<Rightarrow> nat \<Rightarrow> nat" where
  "mapping_map maps pos = foldl (\<lambda>p m. nat (stepmap_map m 0 p 1)) pos maps"

text \<open>\<^verbatim>\<open>tr.mapping\<close>: the maps of the steps applied so far.\<close>

definition tr_mapping :: "transaction \<Rightarrow> (nat \<times> nat \<times> nat) list list" where
  "tr_mapping tr = map step_map (tr_steps tr)"

text \<open>\<^verbatim>\<open>Step.apply(doc)\<close>.\<close>

fun step_apply :: "schema \<Rightarrow> step \<Rightarrow> fragment \<Rightarrow> error + fragment" where
  "step_apply sch (ReplaceStep from to slice) d = doc_replace d from to slice"
| "step_apply sch (ReplaceAroundStep from to gapFrom gapTo slice ins) d =
     (case doc_slice d gapFrom gapTo of
        Inl e \<Rightarrow> Inl e
      | Inr gap \<Rightarrow>
          (if ins > frag_size slice then Inl RangeError
           else doc_replace d from to
                  (frag_append (frag_append (cut_before slice ins) gap) (cut_after slice ins))))"
| "step_apply sch (AddMarkStep from to m) d = map_marks_range (add_to_set sch m) d from to"
| "step_apply sch (RemoveMarkStep from to m) d = map_marks_range (remove_from_set m) d from to"

text \<open>\<^verbatim>\<open>Transform.step(step)\<close>: applies the step to the current document and records it.\<close>

definition tr_step :: "schema \<Rightarrow> transaction \<Rightarrow> step \<Rightarrow> error + transaction" where
  "tr_step sch tr s =
     (case step_apply sch s (tr_doc tr) of
        Inl e \<Rightarrow> Inl e
      | Inr d \<Rightarrow> Inr (tr\<lparr>tr_doc := d, tr_steps := tr_steps tr @ [s]\<rparr>))"

text \<open>
  \<^verbatim>\<open>Transform.replace(from, to, slice)\<close>: \<^verbatim>\<open>replaceStep\<close> gives no step when nothing is
  deleted and nothing inserted, and otherwise (both ends in the same inline content, so
  the slice fits trivially) the plain \<^verbatim>\<open>ReplaceStep\<close>.
\<close>

definition tr_replace :: "schema \<Rightarrow> transaction \<Rightarrow> nat \<Rightarrow> nat \<Rightarrow> fragment \<Rightarrow> error + transaction" where
  "tr_replace sch tr from to slice =
     (if from = to \<and> frag_size slice = 0 then Inr tr
      else tr_step sch tr (ReplaceStep from to slice))"

text \<open>\<^verbatim>\<open>Transform.delete(from, to)\<close> is \<^verbatim>\<open>replace(from, to, Slice.empty)\<close>.\<close>

definition tr_delete :: "schema \<Rightarrow> transaction \<Rightarrow> nat \<Rightarrow> nat \<Rightarrow> error + transaction" where
  "tr_delete sch tr from to = tr_replace sch tr from to []"

text \<open>
  \<^verbatim>\<open>Transform.addMark(from, to, mark)\<close> walks \<^verbatim>\<open>nodesBetween(from, to)\<close> (a
  \<^verbatim>\<open>TypeError\<close> when \<open>to\<close> is beyond the document) and emits steps that give every
  inline node of the range the set \<^verbatim>\<open>mark.addToSet(node.marks)\<close>. The steps the library
  emits (one \<^verbatim>\<open>RemoveMarkStep\<close> per excluded mark, one \<^verbatim>\<open>AddMarkStep\<close> per run of nodes
  that lack the mark) are recorded here as the one \<^verbatim>\<open>AddMarkStep\<close> over the range; none
  of them moves a position.
\<close>

definition tr_addMark :: "schema \<Rightarrow> transaction \<Rightarrow> nat \<Rightarrow> nat \<Rightarrow> mark \<Rightarrow> error + transaction" where
  "tr_addMark sch tr from to m =
     (if to > frag_size (tr_doc tr) then Inl TypeError
      else if to \<le> from then Inr tr
      else tr_step sch tr (AddMarkStep from to m))"

text \<open>
  \<^verbatim>\<open>Transform.removeMark(from, to, markType)\<close>: every mark of that type is removed from
  the inline nodes of the range, by one \<^verbatim>\<open>RemoveMarkStep\<close> per mark found; none of them
  moves a position. The call is recorded as one \<^verbatim>\<open>RemoveMarkStep\<close> naming the mark whose
  type was passed.
\<close>

definition remove_type :: "string \<Rightarrow> mark list \<Rightarrow> mark list" where
  "remove_type ty ms = filter (\<lambda>m. mark_type m \<noteq> ty) ms"

definition remove_type_range :: "string \<Rightarrow> fragment \<Rightarrow> nat \<Rightarrow> nat \<Rightarrow> error + fragment" where
  "remove_type_range ty d from to = map_marks_range (remove_type ty) d from to"

definition tr_removeMark :: "schema \<Rightarrow> transaction \<Rightarrow> nat \<Rightarrow> nat \<Rightarrow> mark \<Rightarrow> error + transaction" where
  "tr_removeMark sch tr from to m =
     (if to > frag_size (tr_doc tr) then Inl TypeError
      else if to \<le> from then Inr tr
      else (case remove_type_range (mark_type m) (tr_doc tr) from to of
              Inl e \<Rightarrow> Inl e
            | Inr d \<Rightarrow> Inr (tr\<lparr>tr_doc := d, tr_steps := tr_steps tr @ [RemoveMarkStep from to m]\<rparr>)))"

text \<open>\<^verbatim>\<open>state.tr\<close>: a fresh transaction on the state's document.\<close>

definition state_tr :: "editor_state \<Rightarrow> transaction" where
  "state_tr st =
     \<lparr>tr_doc = es_doc st, tr_steps = [], tr_history = False, tr_meta = None,
      tr_plugin_meta = None, tr_selection = None\<rparr>"

text \<open>
  \<^verbatim>\<open>{...a, ...b}\<close>: the keys of \<open>a\<close> in their order with the values \<open>b\<close> overrides,
  then the keys only \<open>b\<close> has.
\<close>

definition obj_spread :: "mdata \<Rightarrow> mdata \<Rightarrow> mdata" where
  "obj_spread a b = foldl (\<lambda>acc (k, v). AList.update k v acc) a b"

section \<open>Source: the span locator and the accept/reject commands\<close>

definition is_suggestion_mark :: "mark \<Rightarrow> bool" where
  "is_suggestion_mark m =
     (mark_type m = ''suggestion_insert'' \<or> mark_type m = ''suggestion_delete'')"

text \<open>
  The body of \<^verbatim>\<open>node.marks.forEach\<close> in \<^verbatim>\<open>findSuggestionsInRange\<close>. The
  \<^verbatim>\<open>Map<Mark, {from, to}>\<close> is an association list in insertion order, keyed by the
  mark object.
\<close>

definition visit_mark ::
  "nat \<Rightarrow> nat \<Rightarrow> (mark \<times> nat \<times> nat) list \<Rightarrow> mark \<Rightarrow> (mark \<times> nat \<times> nat) list" where
  "visit_mark pos nodeSize markRanges m =
     (if mark_type m = ''suggestion_insert'' \<or> mark_type m = ''suggestion_delete'' then
        (let range = (case map_of markRanges m of Some r \<Rightarrow> r | None \<Rightarrow> (pos, pos))
         in AList.update m (min (fst range) pos, max (snd range) (pos + nodeSize)) markRanges)
      else markRanges)"

text \<open>The callback of \<^verbatim>\<open>nodesBetween\<close>.\<close>

definition visit_node ::
  "(mark \<times> nat \<times> nat) list \<Rightarrow> node \<times> nat \<Rightarrow> (mark \<times> nat \<times> nat) list" where
  "visit_node markRanges v =
     foldl (visit_mark (snd v) (node_size (fst v))) markRanges (node_marks (fst v))"

definition collect_ranges :: "(node \<times> nat) list \<Rightarrow> (mark \<times> nat \<times> nat) list" where
  "collect_ranges visits = foldl visit_node [] visits"

definition to_marked_range :: "mark \<times> nat \<times> nat \<Rightarrow> marked_range" where
  "to_marked_range e = \<lparr>mr_mark = fst e, mr_from = fst (snd e), mr_to = snd (snd e)\<rparr>"

definition findSuggestionsInRange :: "editor_state \<Rightarrow> nat \<Rightarrow> nat \<Rightarrow> error + marked_range list" where
  "findSuggestionsInRange state from to =
     (case nodes_between (es_doc state) from to of
        Inl e \<Rightarrow> Inl e
      | Inr visits \<Rightarrow> Inr (map to_marked_range (collect_ranges visits)))"

datatype action = Accept | Reject

definition skip_meta :: tmeta where
  "skip_meta =
     \<lparr>m_inSuggestionMode = None, m_username = None, m_data = None,
      m_skipSuggestionOperation = Some True\<rparr>"

text \<open>\<^verbatim>\<open>markToDelete\<close>: the mark type whose spans are removed as content.\<close>

definition markToDelete :: "action \<Rightarrow> string" where
  "markToDelete acceptOrReject =
     (if acceptOrReject = Accept then ''suggestion_delete'' else ''suggestion_insert'')"

text \<open>
  The body of \<^verbatim>\<open>suggestions.forEach\<close> in \<^verbatim>\<open>processSuggestionsInRange\<close>
  (\<^verbatim>\<open>tr.mapping\<close> is always there). The source passes \<^verbatim>\<open>mark.type\<close> to
  \<^verbatim>\<open>removeMark\<close>; the model passes the mark, of which only the type is used.
\<close>

definition process_suggestion ::
  "schema \<Rightarrow> action \<Rightarrow> transaction \<Rightarrow> marked_range \<Rightarrow> error + transaction" where
  "process_suggestion sch acceptOrReject tr s =
     (let adjustedFrom = mapping_map (tr_mapping tr) (mr_from s);
          adjustedTo = mapping_map (tr_mapping tr) (mr_to s)
      in if mark_type (mr_mark s) = markToDelete acceptOrReject
         then tr_delete sch tr adjustedFrom adjustedTo
         else tr_removeMark sch tr adjustedFrom adjustedTo (mr_mark s))"

fun process_suggestions ::
  "schema \<Rightarrow> action \<Rightarrow> transaction \<Rightarrow> marked_range list \<Rightarrow> error + transaction" where
  "process_suggestions sch acceptOrReject tr [] = Inr tr"
| "process_suggestions sch acceptOrReject tr (s # rest) =
     (case process_suggestion sch acceptOrReject tr s of
        Inl e \<Rightarrow> Inl e
      | Inr tr' \<Rightarrow> process_suggestions sch acceptOrReject tr' rest)"

text \<open>
  A command takes the state and the optional \<^verbatim>\<open>dispatch\<close> callback (here: whether one was
  supplied) and returns its boolean together with the transaction it dispatched, if any.
\<close>

definition processSuggestionsInRange ::
  "action \<Rightarrow> nat \<Rightarrow> nat \<Rightarrow> editor_state \<Rightarrow> bool \<Rightarrow> error + bool \<times> transaction option" where
  "processSuggestionsInRange acceptOrReject from to state dispatch =
     (case findSuggestionsInRange state from to of
        Inl e \<Rightarrow> Inl e
      | Inr suggestions \<Rightarrow>
          (if suggestions = [] \<or> \<not> dispatch then Inr (False, None)
           else (case process_suggestions (es_schema state) acceptOrReject
                        ((state_tr state)\<lparr>tr_meta := Some skip_meta\<rparr>) suggestions of
                   Inl e \<Rightarrow> Inl e
                 | Inr tr \<Rightarrow> Inr (True, Some tr))))"

definition acceptSuggestionsInRange ::
  "nat \<Rightarrow> nat \<Rightarrow> editor_state \<Rightarrow> bool \<Rightarrow> error + bool \<times> transaction option" where
  "acceptSuggestionsInRange from to = processSuggestionsInRange Accept from to"

definition rejectSuggestionsInRange ::
  "nat \<Rightarrow> nat \<Rightarrow> editor_state \<Rightarrow> bool \<Rightarrow> error + bool \<times> transaction option" where
  "rejectSuggestionsInRange from to = processSuggestionsInRange Reject from to"

definition acceptAllSuggestions :: "editor_state \<Rightarrow> bool \<Rightarrow> error + bool \<times> transaction option" where
  "acceptAllSuggestions state dispatch =
     acceptSuggestionsInRange 0 (frag_size (es_doc state)) state dispatch"

definition rejectAllSuggestions :: "editor_state \<Rightarrow> bool \<Rightarrow> error + bool \<times> transaction option" where
  "rejectAllSuggestions state dispatch =
     rejectSuggestionsInRange 0 (frag_size (es_doc state)) state dispatch"

section \<open>Source: the plugin\<close>

fun isReplaceStep :: "step \<Rightarrow> bool" where
  "isReplaceStep (ReplaceStep from to slice) = True"
| "isReplaceStep s = False"

fun isReplaceAroundStep :: "step \<Rightarrow> bool" where
  "isReplaceAroundStep (ReplaceAroundStep from to gapFrom gapTo slice ins) = True"
| "isReplaceAroundStep s = False"

fun step_from :: "step \<Rightarrow> nat" where
  "step_from (ReplaceStep from to slice) = from"
| "step_from (ReplaceAroundStep from to gapFrom gapTo slice ins) = from"
| "step_from (AddMarkStep from to m) = from"
| "step_from (RemoveMarkStep from to m) = from"

fun step_to :: "step \<Rightarrow> nat" where
  "step_to (ReplaceStep from to slice) = to"
| "step_to (ReplaceAroundStep from to gapFrom gapTo slice ins) = to"
| "step_to (AddMarkStep from to m) = to"
| "step_to (RemoveMarkStep from to m) = to"

text \<open>
  \<^verbatim>\<open>addedSliceSize\<close>: the slice size of a replace step, the removed size of a mark step,
  and the gap plus the slice for a replace-around step.
\<close>

fun addedSliceSize :: "step \<Rightarrow> fragment \<Rightarrow> nat" where
  "addedSliceSize (ReplaceStep from to slice) removedSlice = frag_size slice"
| "addedSliceSize (ReplaceAroundStep from to gapFrom gapTo slice ins) removedSlice =
     gapTo - gapFrom + frag_size slice"
| "addedSliceSize (AddMarkStep from to m) removedSlice = frag_size removedSlice"
| "addedSliceSize (RemoveMarkStep from to m) removedSlice = frag_size removedSlice"

text \<open>
  \<^verbatim>\<open>isBackspace\<close>: a replace or replace-around step with an empty slice whose start is
  the new state's selection start.
\<close>

fun isBackspace :: "step \<Rightarrow> nat \<Rightarrow> bool" where
  "isBackspace (ReplaceStep from to slice) selFrom = (frag_size slice = 0 \<and> selFrom = from)"
| "isBackspace (ReplaceAroundStep from to gapFrom gapTo slice ins) selFrom =
     (frag_size slice = 0 \<and> selFrom = from)"
| "isBackspace s selFrom = False"

text \<open>
  \<^verbatim>\<open>meta = {...pluginState, ...transactionMeta, data: mergedData}\<close>, field by field.
\<close>

definition meta_inSuggestionMode :: "plugin_state \<Rightarrow> tmeta option \<Rightarrow> bool" where
  "meta_inSuggestionMode ps tm =
     (case tm of None \<Rightarrow> inSuggestionMode ps
      | Some t \<Rightarrow> (case m_inSuggestionMode t of None \<Rightarrow> inSuggestionMode ps | Some b \<Rightarrow> b))"

definition meta_username :: "plugin_state \<Rightarrow> tmeta option \<Rightarrow> string" where
  "meta_username ps tm =
     (case tm of None \<Rightarrow> ps_username ps
      | Some t \<Rightarrow> (case m_username t of None \<Rightarrow> ps_username ps | Some u \<Rightarrow> u))"

definition meta_data :: "plugin_state \<Rightarrow> tmeta option \<Rightarrow> mdata" where
  "meta_data ps tm =
     (case tm of None \<Rightarrow> obj_spread (ps_data ps) []
      | Some t \<Rightarrow> (case m_data t of None \<Rightarrow> obj_spread (ps_data ps) []
                   | Some d \<Rightarrow> obj_spread (ps_data ps) d))"

definition meta_skipSuggestionOperation :: "tmeta option \<Rightarrow> bool" where
  "meta_skipSuggestionOperation tm =
     (case tm of None \<Rightarrow> False
      | Some t \<Rightarrow> (case m_skipSuggestionOperation t of None \<Rightarrow> False | Some b \<Rightarrow> b))"

text \<open>
  The variables \<^verbatim>\<open>appendTransaction\<close> carries through its loops: the output transaction,
  the flag \<^verbatim>\<open>changed\<close>, the document of \<^verbatim>\<open>intermediateTr\<close> and \<^verbatim>\<open>lastStep\<close>. A mark
  the code creates is a new object; \<open>ts_fresh\<close> is the handle the next one gets.
\<close>

record tstate =
  ts_tr :: transaction
  ts_changed :: bool
  ts_intermediate :: fragment
  ts_lastStep :: "step option"
  ts_fresh :: nat

definition create_mark :: "string \<Rightarrow> nat \<Rightarrow> string \<Rightarrow> mdata \<Rightarrow> mark" where
  "create_mark ty ident username data =
     \<lparr>mark_id = ident, mark_type = ty, mark_username = username, mark_data = data\<rparr>"

text \<open>
  The last block of the step callback: \<^verbatim>\<open>if (addedSliceSize > 0)\<close>, with \<open>from\<close> as the
  code has left it.
\<close>

definition mark_inserted ::
  "schema \<Rightarrow> string \<Rightarrow> mdata \<Rightarrow> nat \<Rightarrow> nat \<Rightarrow> nat \<Rightarrow> tstate \<Rightarrow> error + tstate" where
  "mark_inserted sch username data from removedSize added st =
     (if added > 0 then
        (let addedFrom = from + removedSize;
             addedTo = addedFrom + added + 0
         in case tr_addMark sch (ts_tr st) addedFrom addedTo
                   (create_mark ''suggestion_insert'' (ts_fresh st) username data) of
              Inl e \<Rightarrow> Inl e
            | Inr tr' \<Rightarrow> Inr (st\<lparr>ts_tr := tr', ts_changed := True, ts_fresh := ts_fresh st + 1\<rparr>))
      else Inr st)"

text \<open>
  The block \<^verbatim>\<open>if (removedSlice.size > 0)\<close> after the white-space test: the removed slice
  is put back at the mapped position and marked \<^verbatim>\<open>suggestion_delete\<close>. \<open>later\<close> are the
  steps \<^verbatim>\<open>mapToNewDocPos\<close> collects: this step and the ones after it in its transaction,
  then all steps of the transactions that follow. The helper \<^verbatim>\<open>findNonStartingPos\<close> of
  \<^verbatim>\<open>helpers/nodePosition\<close> is not among the sources and is a parameter. Returns the state
  and the new value of \<open>from\<close>.
\<close>

definition reinsert_removed ::
  "schema \<Rightarrow> (fragment \<Rightarrow> nat \<Rightarrow> nat) \<Rightarrow> nat \<Rightarrow> string \<Rightarrow> mdata \<Rightarrow> step list \<Rightarrow> step \<Rightarrow>
   fragment \<Rightarrow> tstate \<Rightarrow> error + tstate \<times> nat" where
  "reinsert_removed sch findNonStartingPos selFrom username data later step removedSlice st =
     (let from1 = mapping_map (map step_map later) (step_from step);
          from2 = mapping_map (tr_mapping (ts_tr st)) from1
      in if from2 > frag_size (tr_doc (ts_tr st)) then Inl RangeError
         else
           (let from = findNonStartingPos (tr_doc (ts_tr st)) from2
            in case tr_replace sch (ts_tr st) from from removedSlice of
                 Inl e \<Rightarrow> Inl e
               | Inr tr1 \<Rightarrow>
                   (case tr_addMark sch tr1 from (from + frag_size removedSlice)
                           (create_mark ''suggestion_delete'' (ts_fresh st) username data) of
                      Inl e \<Rightarrow> Inl e
                    | Inr tr2 \<Rightarrow>
                        Inr (st\<lparr>ts_tr := (if isBackspace step selFrom
                                           then tr2\<lparr>tr_selection := Some from\<rparr> else tr2),
                                 ts_changed := True, ts_fresh := ts_fresh st + 1\<rparr>, from))))"

text \<open>
  The first statements of the step callback: \<^verbatim>\<open>intermediateTr\<close> has taken the previous
  step, \<^verbatim>\<open>lastStep\<close> is this step, and the output transaction has the skip flag set.
\<close>

definition begin_step :: "tstate \<Rightarrow> fragment \<Rightarrow> step \<Rightarrow> tstate" where
  "begin_step st idoc step =
     st\<lparr>ts_intermediate := idoc, ts_lastStep := Some step,
        ts_tr := (ts_tr st)\<lparr>tr_meta := Some skip_meta\<rparr>\<rparr>"

definition intermediate_doc :: "schema \<Rightarrow> tstate \<Rightarrow> error + fragment" where
  "intermediate_doc sch st =
     (case ts_lastStep st of
        None \<Rightarrow> Inr (ts_intermediate st)
      | Some l \<Rightarrow> step_apply sch l (ts_intermediate st))"

text \<open>The callback of \<^verbatim>\<open>transaction.steps.forEach\<close>.\<close>

definition transform_step ::
  "schema \<Rightarrow> (fragment \<Rightarrow> nat \<Rightarrow> nat) \<Rightarrow> nat \<Rightarrow> string \<Rightarrow> mdata \<Rightarrow> step list \<Rightarrow> tstate \<Rightarrow> step \<Rightarrow>
   error + tstate" where
  "transform_step sch findNonStartingPos selFrom username data later st step =
     (case intermediate_doc sch st of
        Inl e \<Rightarrow> Inl e
      | Inr idoc \<Rightarrow>
          (case doc_slice idoc (step_from step) (step_to step) of
             Inl e \<Rightarrow> Inl e
           | Inr removedSlice \<Rightarrow>
               (let added = addedSliceSize step removedSlice;
                    st1 = begin_step st idoc step
                in case marks_at sch idoc (step_from step) of
                     Inl e \<Rightarrow> Inl e
                   | Inr marksAtPos \<Rightarrow>
                       (case find is_suggestion_mark marksAtPos of
                          Some existingSuggestionMark \<Rightarrow>
                            (if added > 1 then
                               (case tr_addMark sch (ts_tr st1) (step_from step)
                                       (step_from step + added) existingSuggestionMark of
                                  Inl e \<Rightarrow> Inl e
                                | Inr tr' \<Rightarrow> Inr (st1\<lparr>ts_tr := tr', ts_changed := True\<rparr>))
                             else Inr st1)
                        | None \<Rightarrow>
                            (if frag_size removedSlice > 0 then
                               (if list_all is_space (text_between removedSlice) then Inr st1
                                else (case reinsert_removed sch findNonStartingPos selFrom username
                                             data later step removedSlice st1 of
                                        Inl e \<Rightarrow> Inl e
                                      | Inr (st2, from) \<Rightarrow>
                                          mark_inserted sch username data from
                                            (frag_size removedSlice) added st2))
                             else mark_inserted sch username data (step_from step)
                                    (frag_size removedSlice) added st1)))))"

fun transform_steps ::
  "schema \<Rightarrow> (fragment \<Rightarrow> nat \<Rightarrow> nat) \<Rightarrow> nat \<Rightarrow> string \<Rightarrow> mdata \<Rightarrow> step list \<Rightarrow> step list \<Rightarrow>
   tstate \<Rightarrow> error + tstate" where
  "transform_steps sch fnsp selFrom username data [] after st = Inr st"
| "transform_steps sch fnsp selFrom username data (s # rest) after st =
     (case transform_step sch fnsp selFrom username data (s # rest @ after) st s of
        Inl e \<Rightarrow> Inl e
      | Inr st' \<Rightarrow> transform_steps sch fnsp selFrom username data rest after st')"

text \<open>The callback of \<^verbatim>\<open>transactions.forEach\<close>; \<open>after\<close> are the transactions that follow.\<close>

definition transform_transaction ::
  "schema \<Rightarrow> (fragment \<Rightarrow> nat \<Rightarrow> nat) \<Rightarrow> nat \<Rightarrow> plugin_state \<Rightarrow> transaction \<Rightarrow> transaction list \<Rightarrow>
   tstate \<Rightarrow> error + tstate" where
  "transform_transaction sch fnsp selFrom pluginState transaction after st =
     (if tr_history transaction then Inr st
      else if \<not> meta_inSuggestionMode pluginState (tr_meta transaction) then Inr st
      else if meta_skipSuggestionOperation (tr_meta transaction) then Inr st
      else transform_steps sch fnsp selFrom
             (meta_username pluginState (tr_meta transaction))
             (meta_data pluginState (tr_meta transaction))
             (tr_steps transaction) (concat (map tr_steps after)) st)"

fun transform_transactions ::
  "schema \<Rightarrow> (fragment \<Rightarrow> nat \<Rightarrow> nat) \<Rightarrow> nat \<Rightarrow> plugin_state \<Rightarrow> transaction list \<Rightarrow> tstate \<Rightarrow>
   error + tstate" where
  "transform_transactions sch fnsp selFrom pluginState [] st = Inr st"
| "transform_transactions sch fnsp selFrom pluginState (t # ts) st =
     (case transform_transaction sch fnsp selFrom pluginState t ts st of
        Inl e \<Rightarrow> Inl e
      | Inr st' \<Rightarrow> transform_transactions sch fnsp selFrom pluginState ts st')"

text \<open>
  \<^verbatim>\<open>appendTransaction(transactions, oldState, newState)\<close>: the rewritten transaction, or
  \<open>None\<close> for \<^verbatim>\<open>null\<close>. \<open>fresh\<close> is a handle no mark object has yet.
\<close>

definition init_tstate :: "nat \<Rightarrow> editor_state \<Rightarrow> editor_state \<Rightarrow> tstate" where
  "init_tstate fresh oldState newState =
     \<lparr>ts_tr = state_tr newState, ts_changed = False, ts_intermediate = es_doc oldState,
      ts_lastStep = None, ts_fresh = fresh\<rparr>"

definition appendTransaction ::
  "(fragment \<Rightarrow> nat \<Rightarrow> nat) \<Rightarrow> nat \<Rightarrow> transaction list \<Rightarrow> editor_state \<Rightarrow> editor_state \<Rightarrow>
   error + transaction option" where
  "appendTransaction fnsp fresh transactions oldState newState =
     (case transform_transactions (es_schema newState) fnsp (es_selection_from newState)
             (es_plugin oldState) transactions (init_tstate fresh oldState newState) of
        Inl e \<Rightarrow> Inl e
      | Inr st \<Rightarrow> Inr (if ts_changed st then Some (ts_tr st) else None))"

text \<open>The plugin state: \<^verbatim>\<open>init\<close> with the options, and \<^verbatim>\<open>apply\<close>.\<close>

definition plugin_init :: "bool option \<Rightarrow> string option \<Rightarrow> mdata option \<Rightarrow> plugin_state" where
  "plugin_init optMode optUsername optData =
     \<lparr>inSuggestionMode = (case optMode of None \<Rightarrow> False | Some b \<Rightarrow> b),
      ps_username = (case optUsername of None \<Rightarrow> ''Anonymous''
                     | Some u \<Rightarrow> if u = [] then ''Anonymous'' else u),
      ps_data = (case optData of None \<Rightarrow> [] | Some d \<Rightarrow> d)\<rparr>"

definition plugin_apply :: "transaction \<Rightarrow> plugin_state \<Rightarrow> plugin_state" where
  "plugin_apply tr v =
     (case tr_plugin_meta tr of
        None \<Rightarrow> v
      | Some meta \<Rightarrow>
          \<lparr>inSuggestionMode = (case m_inSuggestionMode meta of None \<Rightarrow> inSuggestionMode v | Some b \<Rightarrow> b),
           ps_username = (case m_username meta of None \<Rightarrow> ps_username v | Some u \<Rightarrow> u),
           ps_data = obj_spread (ps_data v) (case m_data meta of None \<Rightarrow> [] | Some d \<Rightarrow> d)\<rparr>)"

text \<open>
  \<^verbatim>\<open>EditorState.apply\<close> for a dispatched transaction: the new document, the selection
  (the one set explicitly, else the old one mapped), and the plugin state.
\<close>

definition state_apply :: "editor_state \<Rightarrow> transaction \<Rightarrow> editor_state" where
  "state_apply st tr =
     st\<lparr>es_doc := tr_doc tr,
        es_selection_from :=
          (case tr_selection tr of
             Some p \<Rightarrow> p
           | None \<Rightarrow> mapping_map (tr_mapping tr) (es_selection_from st)),
        es_plugin := plugin_apply tr (es_plugin st)\<rparr>"

section \<open>Reading a document position by position\<close>

text \<open>
  The properties below speak about what stands at each position of a document: a code
  unit of a text node or an inline leaf, with the marks of its node.
\<close>

datatype tok = CU nat | LF string

fun node_cells :: "node \<Rightarrow> (tok \<times> mark list) list" where
  "node_cells (Text ms t) = map (\<lambda>c. (CU c, ms)) t"
| "node_cells (Leaf ms n) = [(LF n, ms)]"

definition cells :: "fragment \<Rightarrow> (tok \<times> mark list) list" where
  "cells d = concat (map node_cells d)"

text \<open>The content alone, and the mark type names alone.\<close>

definition ptoks :: "fragment \<Rightarrow> tok list" where
  "ptoks d = map fst (cells d)"

definition ptypes :: "fragment \<Rightarrow> string list list" where
  "ptypes d = map (\<lambda>c. map mark_type (snd c)) (cells d)"

text \<open>What \<^verbatim>\<open>Mark.eq\<close> compares, as a value: two marks are \<^verbatim>\<open>eq\<close> iff their keys agree.\<close>

definition mark_key :: "mark \<Rightarrow> string \<times> string \<times> (string \<Rightarrow> string option)" where
  "mark_key m = (mark_type m, mark_username m, map_of (mark_data m))"

definition scells :: "fragment \<Rightarrow> (tok \<times> (string \<times> string \<times> (string \<Rightarrow> string option)) list) list" where
  "scells d = map (\<lambda>c. (fst c, map mark_key (snd c))) (cells d)"

text \<open>\<^verbatim>\<open>Node.eq\<close> on inline nodes and on their sequences.\<close>

fun node_eq :: "node \<Rightarrow> node \<Rightarrow> bool" where
  "node_eq (Text ms t) (Text ms' t') = (t = t' \<and> same_set ms ms')"
| "node_eq (Leaf ms n) (Leaf ms' n') = (n = n' \<and> same_set ms ms')"
| "node_eq a b = False"

definition doc_eq :: "fragment \<Rightarrow> fragment \<Rightarrow> bool" where
  "doc_eq a b = list_all2 node_eq a b"

text \<open>
  The library keeps inline content normalised: no empty text node, and no two adjacent
  text nodes with the same mark set.
\<close>

fun nonempty_node :: "node \<Rightarrow> bool" where
  "nonempty_node (Text ms t) = (t \<noteq> [])"
| "nonempty_node (Leaf ms n) = True"

fun joinable :: "node \<Rightarrow> node \<Rightarrow> bool" where
  "joinable (Text ms t) (Text ms' t') = same_set ms ms'"
| "joinable a b = False"

fun no_adjacent_joinable :: "fragment \<Rightarrow> bool" where
  "no_adjacent_joinable (a # b # rest) = (\<not> joinable a b \<and> no_adjacent_joinable (b # rest))"
| "no_adjacent_joinable ns = True"

definition wf_frag :: "fragment \<Rightarrow> bool" where
  "wf_frag d = (list_all nonempty_node d \<and> no_adjacent_joinable d)"

fun node_positions :: "nat \<Rightarrow> fragment \<Rightarrow> (node \<times> nat) list" where
  "node_positions pos [] = []"
| "node_positions pos (c # cs) = (c, pos) # node_positions (pos + node_size c) cs"

definition overlapping :: "fragment \<Rightarrow> nat \<Rightarrow> nat \<Rightarrow> (node \<times> nat) list" where
  "overlapping d from to =
     filter (\<lambda>v. snd v < to \<and> from < snd v + node_size (fst v)) (node_positions 0 d)"

definition range_step :: "nat \<Rightarrow> nat \<Rightarrow> (nat \<times> nat) option \<Rightarrow> (nat \<times> nat) option" where
  "range_step pos sz r = (case r of None \<Rightarrow> Some (pos, pos + sz) | Some (f, t) \<Rightarrow> Some (min f pos, max t (pos + sz)))"

definition carries :: "mark \<Rightarrow> node \<times> nat \<Rightarrow> bool" where
  "carries m v = (m \<in> set (node_marks (fst v)))"

definition acc_range :: "mark \<Rightarrow> (node \<times> nat) list \<Rightarrow> (nat \<times> nat) option \<Rightarrow> (nat \<times> nat) option" where
  "acc_range m vs r =
     foldl (\<lambda>r v. if carries m v then range_step (snd v) (node_size (fst v)) r else r) r vs"

section \<open>Example documents\<close>

definition asc :: "string \<Rightarrow> jsstring" where
  "asc s = map of_char s"

definition example_schema :: schema where
  "example_schema =
     \<lparr>mark_rank = (\<lambda>t. if t = ''suggestion_insert'' then 1
                        else if t = ''suggestion_delete'' then 2 else 0),
      mark_excludes = (\<lambda>a b. a = b),
      mark_inclusive = (\<lambda>t. True)\<rparr>"

definition example_mark :: "nat \<Rightarrow> string \<Rightarrow> mark" where
  "example_mark i ty = \<lparr>mark_id = i, mark_type = ty, mark_username = ''alice'', mark_data = []\<rparr>"

definition example_state :: "fragment \<Rightarrow> editor_state" where
  "example_state d =
     \<lparr>es_doc = d, es_selection_from = 0,
      es_plugin = \<lparr>inSuggestionMode = True, ps_username = ''alice'', ps_data = []\<rparr>,
      es_schema = example_schema\<rparr>"

text \<open>
  ``Hello cat world'' where ``cat'' wears one \<^verbatim>\<open>suggestion_delete\<close> mark object that is split
  over two text nodes (the first letter is also strong).
\<close>

definition doc_hello_cat :: fragment where
  "doc_hello_cat =
     [Text [] (asc ''Hello ''),
      Text [example_mark 7 ''strong'', example_mark 1 ''suggestion_delete''] (asc ''c''),
      Text [example_mark 1 ''suggestion_delete''] (asc ''at''),
      Text [] (asc '' world'')]"

definition doc_plain :: fragment where
  "doc_plain = [Text [] (asc ''Hello world'')]"

text \<open>
  \<^verbatim>\<open>tr.insertText(text, pos)\<close> on \<^verbatim>\<open>state.tr\<close> with no stored marks: the text takes the
  marks active at the position.
\<close>

definition insert_text :: "editor_state \<Rightarrow> nat \<Rightarrow> jsstring \<Rightarrow> error + transaction" where
  "insert_text st pos s =
     (case marks_at (es_schema st) (es_doc st) pos of
        Inl e \<Rightarrow> Inl e
      | Inr ms \<Rightarrow> tr_replace (es_schema st) (state_tr st) pos pos [Text ms s])"

text \<open>
  \<^verbatim>\<open>EditorState.applyTransaction\<close> with the plugin installed: the transaction is applied,
  the plugin's \<^verbatim>\<open>appendTransaction\<close> sees it, and what the plugin returns is applied on
  top.
\<close>

definition apply_transaction ::
  "(fragment \<Rightarrow> nat \<Rightarrow> nat) \<Rightarrow> nat \<Rightarrow> editor_state \<Rightarrow> transaction \<Rightarrow> error + editor_state" where
  "apply_transaction fnsp fresh st tr =
     (case appendTransaction fnsp fresh [tr] st (state_apply st tr) of
        Inl e \<Rightarrow> Inl e
      | Inr None \<Rightarrow> Inr (state_apply st tr)
      | Inr (Some tr2) \<Rightarrow> Inr (state_apply (state_apply st tr) tr2))"

text \<open>A session with tracking switched off, and transaction metadata that overrides it.\<close>

definition untracked_state :: "fragment \<Rightarrow> editor_state" where
  "untracked_state d =
     \<lparr>es_doc = d, es_selection_from = 0,
      es_plugin = \<lparr>inSuggestionMode = False, ps_username = ''alice'', ps_data = []\<rparr>,
      es_schema = example_schema\<rparr>"

definition meta_tracking_on :: tmeta where
  "meta_tracking_on =
     \<lparr>m_inSuggestionMode = Some True, m_username = None, m_data = None,
      m_skipSuggestionOperation = None\<rparr>"

definition typed_X :: transaction where
  "typed_X =
     \<lparr>tr_doc = [Text [] (asc ''HelloX world'')], tr_steps = [ReplaceStep 5 5 [Text [] (asc ''X'')]],
      tr_history = False, tr_meta = Some meta_tracking_on, tr_plugin_meta = None,
      tr_selection = None\<rparr>"

text \<open>The transaction the accept command dispatches on the ``Hello cat world'' example.\<close>

definition accepted_cat :: transaction where
  "accepted_cat =
     \<lparr>tr_doc = [Text [] (asc ''Hello  world'')], tr_steps = [ReplaceStep 6 9 []],
      tr_history = False, tr_meta = Some skip_meta, tr_plugin_meta = None, tr_selection = None\<rparr>"




text \<open>The position map of a deletion of \<open>len\<close> positions at \<open>start\<close>.\<close>

definition delmap :: "nat \<Rightarrow> nat \<Rightarrow> nat \<Rightarrow> nat" where
  "delmap start len p = (if p < start then p else if p \<le> start + len then start else p - len)"

text \<open>
  The spans still to be processed fit the transaction: the mapping is monotone, and every
  span, mapped, lies inside the current document.
\<close>

definition spans_fit :: "transaction \<Rightarrow> marked_range list \<Rightarrow> bool" where
  "spans_fit tr ss =
     (mono (mapping_map (tr_mapping tr))
      \<and> list_all (\<lambda>s. mr_from s \<le> mr_to s
                     \<and> mapping_map (tr_mapping tr) (mr_to s) \<le> frag_size (tr_doc tr)) ss)"

text \<open>
  ``ab cd ef gh'' with a pending deletion on ``ab'' and a pending insertion on ``ef''.
\<close>

definition doc_two_spans :: fragment where
  "doc_two_spans =
     [Text [example_mark 1 ''suggestion_delete''] (asc ''ab''),
      Text [] (asc ''cd''),
      Text [example_mark 2 ''suggestion_insert''] (asc ''ef''),
      Text [] (asc ''gh'')]"

text \<open>
  Every position that carries a suggestion mark type lies in the mapped range of a span
  of that type that is still to be processed.
\<close>

definition covered :: "transaction \<Rightarrow> marked_range list \<Rightarrow> bool" where
  "covered tr ss =
     (\<forall>x < frag_size (tr_doc tr). \<forall>ty \<in> set (ptypes (tr_doc tr) ! x).
        ty = ''suggestion_insert'' \<or> ty = ''suggestion_delete'' \<longrightarrow>
        (\<exists>s \<in> set ss. mark_type (mr_mark s) = ty
           \<and> mapping_map (tr_mapping tr) (mr_from s) \<le> x
           \<and> x < mapping_map (tr_mapping tr) (mr_to s)))"

text \<open>
  ``ab cd'' where both parts carry pending marks that overlap on ``b'': a first accept
  removes the deletion and strips the insertion; a second accept finds nothing.
\<close>

definition doc_overlap :: fragment where
  "doc_overlap =
     [Text [example_mark 1 ''suggestion_insert''] (asc ''a''),
      Text [example_mark 1 ''suggestion_insert'', example_mark 2 ''suggestion_delete''] (asc ''b''),
      Text [example_mark 2 ''suggestion_delete''] (asc ''c''),
      Text [] (asc ''d'')]"

definition in_run :: "mark list \<Rightarrow> tok \<times> (string \<times> string \<times> (string \<Rightarrow> string option)) list \<Rightarrow> bool" where
  "in_run ms c = ((\<exists>u. fst c = CU u) \<and> snd c = map mark_key ms)"

text \<open>``abcd'', all of it a pending deletion.\<close>

definition doc_abcd_deleted :: fragment where
  "doc_abcd_deleted = [Text [example_mark 1 ''suggestion_delete''] (asc ''abcd'')]"




text \<open>A schema in which the two suggestion marks are not inclusive.\<close>

definition exclusive_schema :: schema where
  "exclusive_schema =
     example_schema\<lparr>mark_inclusive :=
       (\<lambda>t. t \<noteq> ''suggestion_insert'' \<and> t \<noteq> ''suggestion_delete'')\<rparr>"

text \<open>No position of the document carries a pending mark.\<close>

definition no_pending :: "fragment \<Rightarrow> bool" where
  "no_pending d =
     list_all (\<lambda>tys. \<not> list_ex (\<lambda>ty. ty = ''suggestion_insert'' \<or> ty = ''suggestion_delete'') tys)
       (ptypes d)"

text \<open>
  Position \<open>x\<close> of the original document lies in the located range of a span that the
  call removes as content, and of a span whose marks of type \<open>ty\<close> the call strips.
\<close>

definition in_span :: "marked_range \<Rightarrow> nat \<Rightarrow> bool" where
  "in_span s x = (mr_from s \<le> x \<and> x < mr_to s)"

definition deleted_by :: "action \<Rightarrow> marked_range list \<Rightarrow> nat \<Rightarrow> bool" where
  "deleted_by a rs x =
     list_ex (\<lambda>s. mark_type (mr_mark s) = markToDelete a \<and> in_span s x) rs"

definition unmarked_by :: "action \<Rightarrow> marked_range list \<Rightarrow> string \<Rightarrow> nat \<Rightarrow> bool" where
  "unmarked_by a rs ty x =
     list_ex (\<lambda>s. mark_type (mr_mark s) = ty \<and> ty \<noteq> markToDelete a \<and> in_span s x) rs"

text \<open>
  What a call leaves of the cells \<open>sc\<close> of the original document: the positions that no
  removed span covers, each without the mark types that a stripped span covering it
  names.
\<close>

definition resolved_cells ::
  "action \<Rightarrow> marked_range list \<Rightarrow> (tok \<times> (string \<times> 'k) list) list \<Rightarrow> (tok \<times> (string \<times> 'k) list) list" where
  "resolved_cells a rs sc =
     map (\<lambda>x. (fst (sc ! x), filter (\<lambda>k. \<not> unmarked_by a rs (fst k) x) (snd (sc ! x))))
       (filter (\<lambda>x. \<not> deleted_by a rs x) [0..<length sc])"

section \<open>Properties of the library model\<close>

lemma cells_simps [simp]: "cells [] = []" "cells (n # ns) = node_cells n @ cells ns"
  by (simp_all add: cells_def)

lemma cells_append [simp]: "cells (a @ b) = cells a @ cells b"
  by (simp add: cells_def)

lemma frag_size_simps [simp]: "frag_size [] = 0" "frag_size (n # ns) = node_size n + frag_size ns"
  by (simp_all add: frag_size_def)

lemma frag_size_append [simp]: "frag_size (a @ b) = frag_size a + frag_size b"
  by (simp add: frag_size_def)

lemma length_node_cells [simp]: "length (node_cells n) = node_size n"
  by (cases n) simp_all

lemma length_cells [simp]: "length (cells d) = frag_size d"
  by (induction d) simp_all

lemma cells_cut_before: "cells (cut_before d p) = take p (cells d)"
proof (induction d p rule: frag_split.induct)
  case (1 pos)
  then show ?case by (simp add: cut_before_def)
next
  case (2 c cs pos)
  show ?case
  proof (cases "pos = 0")
    case True
    then show ?thesis by (simp add: cut_before_def)
  next
    case False
    show ?thesis
    proof (cases "pos < node_size c")
      case True
      with False show ?thesis
        by (cases c) (auto simp: cut_before_def take_map)
    next
      case ge: False
      with False 2 show ?thesis
        by (auto simp: cut_before_def split: prod.splits option.splits)
    qed
  qed
qed

lemma cells_cut_after: "cells (cut_after d p) = drop p (cells d)"
proof (induction d p rule: frag_split.induct)
  case (1 pos)
  then show ?case by (simp add: cut_after_def)
next
  case (2 c cs pos)
  show ?case
  proof (cases "pos = 0")
    case True
    then show ?thesis by (simp add: cut_after_def)
  next
    case False
    show ?thesis
    proof (cases "pos < node_size c")
      case True
      with False show ?thesis
        by (cases c) (auto simp: cut_after_def drop_map)
    next
      case ge: False
      with False 2 show ?thesis
        by (auto simp: cut_after_def split: prod.splits option.splits)
    qed
  qed
qed

lemma cells_frag_cut: "cells (frag_cut d f t) = take (t - f) (drop f (cells d))"
  by (simp add: frag_cut_def cells_cut_before cells_cut_after)

lemma data_eq_iff: "data_eq a b \<longleftrightarrow> map_of a = map_of b"
proof
  assume h: "data_eq a b"
  show "map_of a = map_of b"
  proof
    fix k
    show "map_of a k = map_of b k"
    proof (cases "k \<in> fst ` set a \<union> fst ` set b")
      case True
      with h show ?thesis by (auto simp: data_eq_def list_all_iff)
    next
      case False
      then have "map_of a k = None" "map_of b k = None"
        by (auto simp: map_of_eq_None_iff)
      then show ?thesis by simp
    qed
  qed
next
  assume "map_of a = map_of b"
  then show "data_eq a b" by (simp add: data_eq_def list_all_iff)
qed

lemma mark_eq_iff: "mark_eq a b \<longleftrightarrow> mark_key a = mark_key b"
  by (simp add: mark_eq_def mark_key_def data_eq_iff)

lemma same_set_iff: "same_set a b \<longleftrightarrow> map mark_key a = map mark_key b"
  unfolding same_set_def
proof (induction a arbitrary: b)
  case Nil
  then show ?case by auto
next
  case (Cons x xs)
  then show ?case by (cases b) (auto simp: mark_eq_iff)
qed

lemma scells_simps [simp]: "scells [] = []" "scells (a @ b) = scells a @ scells b"
  by (simp_all add: scells_def)

lemma scells_Cons: "scells (n # ns) = scells [n] @ scells ns"
  by (simp add: scells_def)

lemma scells_Text: "scells [Text ms t] = map (\<lambda>c. (CU c, map mark_key ms)) t"
  by (simp add: scells_def comp_def)

lemma scells_add_node: "scells (add_node ns c) = scells ns @ scells [c]"
proof (induction ns c rule: add_node.induct)
  case (2 ms1 t1 ms2 t2)
  then show ?case by (auto simp: scells_def same_set_iff)
qed (simp_all add: scells_def)

lemma scells_foldl_add_node: "scells (foldl add_node acc ns) = scells acc @ scells ns"
proof (induction ns arbitrary: acc)
  case Nil then show ?case by simp
next
  case (Cons n ns)
  have "scells (n # ns) = scells [n] @ scells ns" by (simp add: scells_def)
  with Cons show ?case by (simp add: scells_add_node)
qed

lemma scells_from_array: "scells (from_array ns) = scells ns"
  by (simp add: from_array_def scells_foldl_add_node)

lemma scells_append_join: "scells (append_join a b) = scells a @ scells b"
proof (induction a b rule: append_join.induct)
  case (1 ms1 t1 ms2 t2 rest)
  then show ?case by (auto simp: scells_def same_set_iff)
qed (simp_all add: scells_def)

lemma length_scells [simp]: "length (scells d) = frag_size d"
  by (simp add: scells_def)

lemma scells_size0: "frag_size d = 0 \<Longrightarrow> scells d = []"
  using length_scells[of d] by (simp del: length_scells)

lemma scells_frag_append: "scells (frag_append a b) = scells a @ scells b"
  by (auto simp: frag_append_def scells_append_join scells_size0)

lemma scells_cut_before: "scells (cut_before d p) = take p (scells d)"
  by (simp add: scells_def cells_cut_before take_map)

lemma scells_cut_after: "scells (cut_after d p) = drop p (scells d)"
  by (simp add: scells_def cells_cut_after drop_map)

lemma scells_doc_replace:
  assumes "doc_replace d f t sl = Inr d'"
  shows "scells d' = take f (scells d) @ scells sl @ drop t (scells d)"
  using assms
  by (auto simp: doc_replace_def scells_foldl_add_node scells_frag_append scells_cut_before
      scells_cut_after scells_size0 split: if_splits)

lemma doc_replace_ok: "f \<le> frag_size d \<Longrightarrow> t \<le> frag_size d \<Longrightarrow> \<exists>d'. doc_replace d f t sl = Inr d'"
  by (simp add: doc_replace_def)

lemma frag_size_scells: "scells a = scells b \<Longrightarrow> frag_size a = frag_size b"
  by (metis length_scells)

lemma frag_size_doc_replace:
  assumes "doc_replace d f t sl = Inr d'" "f \<le> t"
  shows "frag_size d' = frag_size d - (t - f) + frag_size sl"
proof -
  have "length (scells d') = length (take f (scells d) @ scells sl @ drop t (scells d))"
    using scells_doc_replace[OF assms(1)] by simp
  moreover have "t \<le> frag_size d" using assms(1) by (auto simp: doc_replace_def split: if_splits)
  ultimately show ?thesis using assms(2) by simp
qed

lemma node_positions_ge: "(n, p) \<in> set (node_positions q d) \<Longrightarrow> q \<le> p"
proof (induction d arbitrary: q)
  case Nil
  then show ?case by simp
next
  case (Cons c cs)
  from Cons.prems have "(n, p) = (c, q) \<or> (n, p) \<in> set (node_positions (q + node_size c) cs)"
    by simp
  then show ?case
  proof
    assume "(n, p) = (c, q)" then show ?thesis by simp
  next
    assume "(n, p) \<in> set (node_positions (q + node_size c) cs)"
    from Cons.IH[OF this] show ?thesis by simp
  qed
qed

lemma nodes_between_loop_ok:
  "to \<le> pos + frag_size d \<Longrightarrow>
   nodes_between_loop pos from to d =
     Inr (filter (\<lambda>v. snd v < to \<and> from < snd v + node_size (fst v)) (node_positions pos d))"
proof (induction d arbitrary: pos)
  case Nil
  then show ?case by simp
next
  case (Cons c cs)
  show ?case
  proof (cases "pos < to")
    case True
    have "to \<le> (pos + node_size c) + frag_size cs" using Cons.prems by simp
    from Cons.IH[OF this] True show ?thesis by simp
  next
    case False
    have "filter (\<lambda>v. snd v < to \<and> from < snd v + node_size (fst v)) (node_positions pos (c # cs)) = []"
    proof -
      have "\<forall>v \<in> set (node_positions pos (c # cs)). \<not> snd v < to"
        using False node_positions_ge[of _ _ pos "c # cs"] by fastforce
      then show ?thesis by (auto simp: filter_empty_conv simp del: node_positions.simps)
    qed
    with False show ?thesis by simp
  qed
qed

lemma nodes_between_ok:
  "to \<le> frag_size d \<Longrightarrow> nodes_between d from to = Inr (overlapping d from to)"
  by (simp add: nodes_between_def overlapping_def nodes_between_loop_ok)

lemma nodes_between_loop_err:
  "pos + frag_size d < to \<Longrightarrow> nodes_between_loop pos from to d = Inl TypeError"
  by (induction d arbitrary: pos) auto

lemma nodes_between_err: "frag_size d < to \<Longrightarrow> nodes_between d from to = Inl TypeError"
  by (simp add: nodes_between_def nodes_between_loop_err)

(* collect_ranges *)

lemma map_of_visit_mark:
  "map_of (visit_mark pos sz R m') m =
     (if m = m' \<and> is_suggestion_mark m then range_step pos sz (map_of R m) else map_of R m)"
  by (auto simp: visit_mark_def is_suggestion_mark_def range_step_def update_conv' Let_def
      split: option.splits)

lemma distinct_visit_mark: "distinct (map fst R) \<Longrightarrow> distinct (map fst (visit_mark pos sz R m))"
  by (simp add: visit_mark_def distinct_update Let_def)

lemma distinct_visit_marks:
  "distinct (map fst R) \<Longrightarrow> distinct (map fst (foldl (visit_mark pos sz) R ms))"
  by (induction ms arbitrary: R) (simp_all add: distinct_visit_mark)

lemma distinct_visit_node: "distinct (map fst R) \<Longrightarrow> distinct (map fst (visit_node R v))"
  by (simp add: visit_node_def distinct_visit_marks)

lemma distinct_foldl_visit_node:
  "distinct (map fst R) \<Longrightarrow> distinct (map fst (foldl visit_node R vs))"
  by (induction vs arbitrary: R) (simp_all add: distinct_visit_node)

lemma distinct_collect_ranges: "distinct (map fst (collect_ranges vs))"
  by (simp add: collect_ranges_def distinct_foldl_visit_node)

lemma range_step_idem: "range_step pos sz (range_step pos sz r) = range_step pos sz r"
  by (auto simp: range_step_def split: option.splits)

lemma map_of_visit_marks:
  "map_of (foldl (visit_mark pos sz) R ms) m =
     (if m \<in> set ms \<and> is_suggestion_mark m then range_step pos sz (map_of R m) else map_of R m)"
proof (induction ms arbitrary: R)
  case Nil
  then show ?case by simp
next
  case (Cons x xs)
  show ?case
    by (simp add: Cons.IH map_of_visit_mark range_step_idem)
qed

lemma map_of_visit_node:
  "map_of (visit_node R v) m =
     (if carries m v \<and> is_suggestion_mark m
      then range_step (snd v) (node_size (fst v)) (map_of R m) else map_of R m)"
  by (simp add: visit_node_def map_of_visit_marks carries_def)

lemma acc_range_Cons:
  "acc_range m (v # vs) r =
     acc_range m vs (if carries m v then range_step (snd v) (node_size (fst v)) r else r)"
  by (simp add: acc_range_def)

lemma map_of_foldl_visit_node:
  "map_of (foldl visit_node R vs) m =
     (if is_suggestion_mark m then acc_range m vs (map_of R m) else map_of R m)"
proof (induction vs arbitrary: R)
  case Nil
  then show ?case by (simp add: acc_range_def)
next
  case (Cons v vs)
  have "map_of (foldl visit_node R (v # vs)) m = map_of (foldl visit_node (visit_node R v) vs) m"
    by simp
  also have "\<dots> = (if is_suggestion_mark m then acc_range m vs (map_of (visit_node R v) m)
                    else map_of (visit_node R v) m)"
    by (rule Cons.IH)
  also have "\<dots> = (if is_suggestion_mark m then acc_range m (v # vs) (map_of R m) else map_of R m)"
    by (simp add: map_of_visit_node acc_range_Cons)
  finally show ?case .
qed

lemma Min_insert_min: "finite S \<Longrightarrow> Min (insert (min f x) S) = Min (insert f (insert (x::nat) S))"
  by (cases "S = {}") (simp_all add: min.assoc)

lemma Max_insert_max: "finite S \<Longrightarrow> Max (insert (max t x) S) = Max (insert t (insert (x::nat) S))"
  by (cases "S = {}") (simp_all add: max.assoc)

lemma acc_range_Some:
  "acc_range m vs (Some (f, t)) =
     Some (Min (insert f (snd ` {v \<in> set vs. carries m v})),
           Max (insert t ((\<lambda>v. snd v + node_size (fst v)) ` {v \<in> set vs. carries m v})))"
proof (induction vs arbitrary: f t)
  case Nil
  then show ?case by (simp add: acc_range_def)
next
  case (Cons v vs)
  show ?case
  proof (cases "carries m v")
    case True
    have s1: "{u \<in> set (v # vs). carries m u} = insert v {u \<in> set vs. carries m u}"
      using True by auto
    have "acc_range m (v # vs) (Some (f, t)) =
          acc_range m vs (Some (min f (snd v), max t (snd v + node_size (fst v))))"
      using True by (simp add: acc_range_Cons range_step_def)
    also have "\<dots> = Some (Min (insert (min f (snd v)) (snd ` {u \<in> set vs. carries m u})),
           Max (insert (max t (snd v + node_size (fst v)))
                  ((\<lambda>v. snd v + node_size (fst v)) ` {u \<in> set vs. carries m u})))"
      by (rule Cons.IH)
    finally show ?thesis
      unfolding s1 by (simp add: Min_insert_min Max_insert_max)
  next
    case False
    have s1: "{u \<in> set (v # vs). carries m u} = {u \<in> set vs. carries m u}"
      using False by auto
    show ?thesis unfolding s1 using False Cons.IH by (simp add: acc_range_Cons)
  qed
qed

lemma acc_range_None:
  "acc_range m vs None =
     (if {v \<in> set vs. carries m v} = {} then None
      else Some (Min (snd ` {v \<in> set vs. carries m v}),
                 Max ((\<lambda>v. snd v + node_size (fst v)) ` {v \<in> set vs. carries m v})))"
proof (induction vs)
  case Nil
  then show ?case by (simp add: acc_range_def)
next
  case (Cons v vs)
  show ?case
  proof (cases "carries m v")
    case True
    have s1: "{u \<in> set (v # vs). carries m u} = insert v {u \<in> set vs. carries m u}"
      using True by auto
    have "acc_range m (v # vs) None = acc_range m vs (Some (snd v, snd v + node_size (fst v)))"
      using True by (simp add: acc_range_Cons range_step_def)
    then show ?thesis unfolding s1 by (simp add: acc_range_Some)
  next
    case False
    have s1: "{u \<in> set (v # vs). carries m u} = {u \<in> set vs. carries m u}"
      using False by auto
    show ?thesis unfolding s1 using False Cons.IH by (simp add: acc_range_Cons)
  qed
qed

lemma map_of_collect_ranges:
  "map_of (collect_ranges vs) m =
     (if is_suggestion_mark m \<and> {v \<in> set vs. carries m v} \<noteq> {}
      then Some (Min (snd ` {v \<in> set vs. carries m v}),
                 Max ((\<lambda>v. snd v + node_size (fst v)) ` {v \<in> set vs. carries m v}))
      else None)"
  by (simp add: collect_ranges_def map_of_foldl_visit_node acc_range_None)

lemma collect_ranges_entry:
  "(m, f, t) \<in> set (collect_ranges vs) \<longleftrightarrow>
     is_suggestion_mark m \<and> {v \<in> set vs. carries m v} \<noteq> {}
     \<and> f = Min (snd ` {v \<in> set vs. carries m v})
     \<and> t = Max ((\<lambda>v. snd v + node_size (fst v)) ` {v \<in> set vs. carries m v})"
proof -
  have "(m, f, t) \<in> set (collect_ranges vs) \<longleftrightarrow> map_of (collect_ranges vs) m = Some (f, t)"
    using distinct_collect_ranges[of vs] by simp
  then show ?thesis by (auto simp: map_of_collect_ranges)
qed

text \<open>
  C2. For a range inside the document the span locator returns, for the nodes
  overlapping the range, exactly one entry per distinct suggestion mark object found on
  them; the entry's range runs from the least start to the greatest end of the nodes
  that carry the object. A mark object split over several nodes therefore gives one
  merged span.
\<close>

theorem findSuggestionsInRange_one_span_per_mark:
  assumes "to \<le> frag_size (es_doc state)"
  shows "\<exists>rs. findSuggestionsInRange state from to = Inr rs
      \<and> distinct (map mr_mark rs)
      \<and> mr_mark ` set rs =
          {m. is_suggestion_mark m \<and> (\<exists>v \<in> set (overlapping (es_doc state) from to). carries m v)}
      \<and> (\<forall>r \<in> set rs.
            mr_from r = Min (snd ` {v \<in> set (overlapping (es_doc state) from to). carries (mr_mark r) v})
          \<and> mr_to r = Max ((\<lambda>v. snd v + node_size (fst v)) `
                            {v \<in> set (overlapping (es_doc state) from to). carries (mr_mark r) v}))"
proof -
  let ?vs = "overlapping (es_doc state) from to"
  let ?rs = "map to_marked_range (collect_ranges ?vs)"
  have fs: "findSuggestionsInRange state from to = Inr ?rs"
    using assms by (simp add: findSuggestionsInRange_def nodes_between_ok)
  have mk: "map mr_mark ?rs = map fst (collect_ranges ?vs)"
    by (simp add: to_marked_range_def comp_def)
  have d: "distinct (map mr_mark ?rs)"
    unfolding mk by (rule distinct_collect_ranges)
  have keys: "mr_mark ` set ?rs = {m. is_suggestion_mark m \<and> (\<exists>v \<in> set ?vs. carries m v)}"
  proof -
    have "mr_mark ` set ?rs = fst ` set (collect_ranges ?vs)"
      using mk by (metis set_map)
    also have "\<dots> = {m. is_suggestion_mark m \<and> (\<exists>v \<in> set ?vs. carries m v)}"
    proof (rule set_eqI)
      fix m
      have "m \<in> fst ` set (collect_ranges ?vs) \<longleftrightarrow> (\<exists>f t. (m, f, t) \<in> set (collect_ranges ?vs))"
        by force
      also have "\<dots> \<longleftrightarrow> is_suggestion_mark m \<and> {v \<in> set ?vs. carries m v} \<noteq> {}"
        by (simp add: collect_ranges_entry)
      finally show "m \<in> fst ` set (collect_ranges ?vs) \<longleftrightarrow>
          m \<in> {m. is_suggestion_mark m \<and> (\<exists>v \<in> set ?vs. carries m v)}"
        by auto
    qed
    finally show ?thesis .
  qed
  have rng: "\<forall>r \<in> set ?rs.
            mr_from r = Min (snd ` {v \<in> set ?vs. carries (mr_mark r) v})
          \<and> mr_to r = Max ((\<lambda>v. snd v + node_size (fst v)) ` {v \<in> set ?vs. carries (mr_mark r) v})"
  proof
    fix r assume "r \<in> set ?rs"
    then obtain e where e: "e \<in> set (collect_ranges ?vs)" and r: "r = to_marked_range e"
      by auto
    obtain m f t where mft: "e = (m, f, t)" by (cases e) auto
    from e mft have "f = Min (snd ` {v \<in> set ?vs. carries m v})"
      "t = Max ((\<lambda>v. snd v + node_size (fst v)) ` {v \<in> set ?vs. carries m v})"
      by (simp_all add: collect_ranges_entry)
    then show "mr_from r = Min (snd ` {v \<in> set ?vs. carries (mr_mark r) v})
          \<and> mr_to r = Max ((\<lambda>v. snd v + node_size (fst v)) ` {v \<in> set ?vs. carries (mr_mark r) v})"
      by (simp add: r mft to_marked_range_def)
  qed
  from fs d keys rng show ?thesis by blast
qed

lemma asc_simps [simp]: "asc [] = []" "asc (c # cs) = of_char c # asc cs"
  by (simp_all add: asc_def)

theorem findSuggestionsInRange_one_span_per_mark_witness:
  "15 \<le> frag_size (es_doc (example_state doc_hello_cat))
   \<and> findSuggestionsInRange (example_state doc_hello_cat) 0 15 =
       Inr [\<lparr>mr_mark = example_mark 1 ''suggestion_delete'', mr_from = 6, mr_to = 9\<rparr>]"
proof -
  have h: "15 \<le> frag_size (es_doc (example_state doc_hello_cat))"
    by (simp add: example_state_def doc_hello_cat_def)
  have e: "findSuggestionsInRange (example_state doc_hello_cat) 0 15 =
       Inr [\<lparr>mr_mark = example_mark 1 ''suggestion_delete'', mr_from = 6, mr_to = 9\<rparr>]"
    by (simp add: findSuggestionsInRange_def nodes_between_def example_state_def doc_hello_cat_def
        collect_ranges_def visit_node_def visit_mark_def example_mark_def to_marked_range_def)
  show ?thesis
    using findSuggestionsInRange_one_span_per_mark[OF h, of 0] h e by simp
qed

text \<open>
  C6. When the span locator finds no span in the range, accepting and rejecting both
  return \<open>False\<close> without an error and dispatch nothing, so the document stays as it is.
\<close>

theorem no_spans_is_a_noop:
  assumes "findSuggestionsInRange state from to = Inr []"
  shows "acceptSuggestionsInRange from to state dispatch = Inr (False, None)
       \<and> rejectSuggestionsInRange from to state dispatch = Inr (False, None)"
  using assms
  by (simp add: acceptSuggestionsInRange_def rejectSuggestionsInRange_def
      processSuggestionsInRange_def)

theorem no_spans_is_a_noop_witness:
  "findSuggestionsInRange (example_state doc_plain) 0 11 = Inr []
   \<and> acceptSuggestionsInRange 0 11 (example_state doc_plain) True = Inr (False, None)
   \<and> rejectSuggestionsInRange 0 11 (example_state doc_plain) True = Inr (False, None)"
proof -
  have h: "findSuggestionsInRange (example_state doc_plain) 0 11 = Inr []"
    by (simp add: findSuggestionsInRange_def nodes_between_def example_state_def doc_plain_def
        collect_ranges_def visit_node_def)
  show ?thesis
    using no_spans_is_a_noop[OF h, of True] h by simp
qed

text \<open>
  C10. Without a \<^verbatim>\<open>dispatch\<close> function the commands return \<open>False\<close> and dispatch
  nothing, whatever spans the locator has returned.
\<close>

theorem no_dispatch_returns_false:
  assumes "findSuggestionsInRange state from to = Inr rs"
  shows "acceptSuggestionsInRange from to state False = Inr (False, None)
       \<and> rejectSuggestionsInRange from to state False = Inr (False, None)"
  using assms
  by (simp add: acceptSuggestionsInRange_def rejectSuggestionsInRange_def
      processSuggestionsInRange_def)

theorem no_dispatch_returns_false_witness:
  "findSuggestionsInRange (example_state doc_hello_cat) 0 15 =
       Inr [\<lparr>mr_mark = example_mark 1 ''suggestion_delete'', mr_from = 6, mr_to = 9\<rparr>]
   \<and> acceptSuggestionsInRange 0 15 (example_state doc_hello_cat) False = Inr (False, None)
   \<and> rejectSuggestionsInRange 0 15 (example_state doc_hello_cat) False = Inr (False, None)"
proof -
  have e: "findSuggestionsInRange (example_state doc_hello_cat) 0 15 =
       Inr [\<lparr>mr_mark = example_mark 1 ''suggestion_delete'', mr_from = 6, mr_to = 9\<rparr>]"
    by (simp add: findSuggestionsInRange_def nodes_between_def example_state_def doc_hello_cat_def
        collect_ranges_def visit_node_def visit_mark_def example_mark_def to_marked_range_def)
  show ?thesis
    using no_dispatch_returns_false[OF e] e by simp
qed

lemma ptoks_scells: "ptoks d = map fst (scells d)"
  by (simp add: ptoks_def scells_def comp_def)

lemma ptypes_scells: "ptypes d = map (\<lambda>c. map fst (snd c)) (scells d)"
  by (simp add: ptypes_def scells_def comp_def mark_key_def)

lemma scells_set_marks:
  assumes "\<And>ms. map mark_key (g ms) = gs (map mark_key ms)"
  shows "scells (map (\<lambda>n. set_marks (g (node_marks n)) n) sl) = map (\<lambda>c. (fst c, gs (snd c))) (scells sl)"
proof (induction sl)
  case Nil
  then show ?case by simp
next
  case (Cons n sl)
  then show ?case
    by (cases n) (simp_all add: scells_def comp_def assms)
qed

lemma doc_slice_Inr: "doc_slice d f t = Inr sl \<Longrightarrow> f \<le> frag_size d \<and> t \<le> frag_size d \<and> sl = frag_cut d f t"
  by (auto simp: doc_slice_def split: if_splits)

lemma scells_frag_cut: "scells (frag_cut d f t) = take (t - f) (drop f (scells d))"
  by (simp add: scells_def cells_frag_cut take_map drop_map)

lemma scells_map_marks_range:
  assumes g: "\<And>ms. map mark_key (g ms) = gs (map mark_key ms)"
    and r: "map_marks_range g d f t = Inr d'"
  shows "scells d' = take f (scells d) @ map (\<lambda>c. (fst c, gs (snd c))) (take (t - f) (drop f (scells d)))
           @ drop t (scells d)"
proof -
  from r obtain sl where sl: "doc_slice d f t = Inr sl"
    and rep: "doc_replace d f t (from_array (map (\<lambda>n. set_marks (g (node_marks n)) n) sl)) = Inr d'"
    by (auto simp: map_marks_range_def split: sum.splits)
  from sl have sl': "sl = frag_cut d f t" by (simp add: doc_slice_Inr)
  show ?thesis
    using scells_doc_replace[OF rep]
    by (simp add: scells_from_array scells_set_marks[of g gs, OF g] sl' scells_frag_cut)
qed

lemma take_mid_drop: "f \<le> t \<Longrightarrow> take f xs @ take (t - f) (drop f xs) @ drop t xs = xs"
  by (metis add_diff_inverse_nat append_take_drop_id drop_drop not_less add.commute)

lemma map_marks_range_ok:
  "f \<le> frag_size d \<Longrightarrow> t \<le> frag_size d \<Longrightarrow> \<exists>d'. map_marks_range g d f t = Inr d'"
  by (simp add: map_marks_range_def doc_slice_def doc_replace_def)

lemma ptoks_map_marks_range:
  assumes "map_marks_range g d f t = Inr d'" "f \<le> t"
  shows "ptoks d' = ptoks d"
proof -
  from assms(1) obtain sl where sl: "doc_slice d f t = Inr sl"
    and rep: "doc_replace d f t (from_array (map (\<lambda>n. set_marks (g (node_marks n)) n) sl)) = Inr d'"
    by (auto simp: map_marks_range_def split: sum.splits)
  from sl have sl': "sl = frag_cut d f t" by (simp add: doc_slice_Inr)
  have "map fst (scells (map (\<lambda>n. set_marks (g (node_marks n)) n) sl)) = map fst (scells sl)"
    by (induction sl) (simp, case_tac a, simp_all add: scells_def)
  then have "ptoks d' = map fst (take f (scells d) @ take (t - f) (drop f (scells d)) @ drop t (scells d))"
    using scells_doc_replace[OF rep]
    by (simp add: ptoks_scells scells_from_array sl' scells_frag_cut)
  then show ?thesis using assms(2) by (simp add: take_mid_drop ptoks_scells)
qed

lemma frag_size_map_marks_range:
  assumes "map_marks_range g d f t = Inr d'" "f \<le> t"
  shows "frag_size d' = frag_size d"
  using ptoks_map_marks_range[OF assms] by (metis length_cells length_map ptoks_def)

lemma tr_addMark_ptoks:
  assumes "tr_addMark sch tr f t m = Inr tr'"
  shows "ptoks (tr_doc tr') = ptoks (tr_doc tr)"
  using assms
  by (auto simp: tr_addMark_def tr_step_def split: if_splits sum.splits
      dest!: ptoks_map_marks_range)

lemma process_suggestion_meta:
  "process_suggestion sch a tr s = Inr tr' \<Longrightarrow> tr_meta tr' = tr_meta tr"
  by (auto simp: process_suggestion_def tr_delete_def tr_replace_def tr_step_def tr_removeMark_def
      Let_def split: if_splits sum.splits)

lemma process_suggestions_meta:
  "process_suggestions sch a tr ss = Inr tr' \<Longrightarrow> tr_meta tr' = tr_meta tr"
proof (induction ss arbitrary: tr)
  case Nil
  then show ?case by simp
next
  case (Cons s ss)
  then show ?case
    by (auto split: sum.splits dest: process_suggestion_meta)
qed

lemma resolver_sets_skip:
  assumes "processSuggestionsInRange a f t state dispatch = Inr (b, Some r)"
  shows "tr_meta r = Some skip_meta"
  using assms
  by (auto simp: processSuggestionsInRange_def split: sum.splits if_splits
      dest!: process_suggestions_meta)

lemma transform_transactions_bypassed:
  assumes "list_all (\<lambda>t. tr_history t \<or> \<not> meta_inSuggestionMode ps (tr_meta t)
                        \<or> meta_skipSuggestionOperation (tr_meta t)) ts"
  shows "transform_transactions sch fnsp selFrom ps ts st = Inr st"
  using assms
  by (induction ts) (auto simp: transform_transaction_def)

text \<open>
  C9, as amended. A transaction is left alone when it is a history replay, when it
  carries the skip flag, or when the tracking flag in effect for it is off; the flag in
  effect is the one in the transaction's own metadata when it has one, and the session's
  flag otherwise. The callback then returns with every variable of the loop unchanged,
  a batch of such transactions makes \<^verbatim>\<open>appendTransaction\<close> return \<^verbatim>\<open>null\<close>, and every
  transaction the accept/reject commands dispatch is of this kind.
\<close>

theorem bypassed_transactions_are_forwarded:
  assumes "tr_history t \<or> \<not> meta_inSuggestionMode ps (tr_meta t)
           \<or> meta_skipSuggestionOperation (tr_meta t)"
  shows "transform_transaction sch fnsp selFrom ps t after st = Inr st
       \<and> (es_plugin oldState = ps \<longrightarrow>
            appendTransaction fnsp fresh [t] oldState newState = Inr None)
       \<and> (tr_meta t = None \<longrightarrow> meta_inSuggestionMode ps (tr_meta t) = inSuggestionMode ps)
       \<and> (\<forall>a f t' state b r. processSuggestionsInRange a f t' state True = Inr (b, Some r) \<longrightarrow>
            transform_transaction sch fnsp selFrom ps r after st = Inr st)"
proof -
  have 1: "transform_transaction sch fnsp selFrom ps t after st = Inr st"
    using assms by (auto simp: transform_transaction_def)
  have 2: "es_plugin oldState = ps \<longrightarrow>
            appendTransaction fnsp fresh [t] oldState newState = Inr None"
    using assms
    by (auto simp: appendTransaction_def transform_transaction_def init_tstate_def)
  have 3: "tr_meta t = None \<longrightarrow> meta_inSuggestionMode ps (tr_meta t) = inSuggestionMode ps"
    by (simp add: meta_inSuggestionMode_def)
  have 4: "\<forall>a f t' state b r. processSuggestionsInRange a f t' state True = Inr (b, Some r) \<longrightarrow>
            transform_transaction sch fnsp selFrom ps r after st = Inr st"
    by (auto simp: transform_transaction_def meta_skipSuggestionOperation_def skip_meta_def
        dest!: resolver_sets_skip)
  from 1 2 3 4 show ?thesis by blast
qed

theorem bypassed_transactions_are_forwarded_witness:
  "acceptAllSuggestions (example_state doc_hello_cat) True = Inr (True, Some accepted_cat)
   \<and> meta_skipSuggestionOperation (tr_meta accepted_cat)
   \<and> appendTransaction (\<lambda>d p. p) 100 [accepted_cat] (example_state doc_hello_cat)
       (state_apply (example_state doc_hello_cat) accepted_cat) = Inr None"
proof -
  have a: "acceptAllSuggestions (example_state doc_hello_cat) True = Inr (True, Some accepted_cat)"
    by code_simp
  have h: "meta_skipSuggestionOperation (tr_meta accepted_cat)"
    by code_simp
  have b: "tr_history accepted_cat
        \<or> \<not> meta_inSuggestionMode (es_plugin (example_state doc_hello_cat)) (tr_meta accepted_cat)
        \<or> meta_skipSuggestionOperation (tr_meta accepted_cat)"
    using h by simp
  note bypassed_transactions_are_forwarded[where t = accepted_cat
      and ps = "es_plugin (example_state doc_hello_cat)"
      and oldState = "example_state doc_hello_cat"
      and newState = "state_apply (example_state doc_hello_cat) accepted_cat"
      and fnsp = "\<lambda>d p. p" and fresh = 100, OF b]
  then
  show ?thesis using a h by simp
qed

text \<open>
  The claim as stated fails: with the session flag off, a transaction whose own metadata
  switches tracking on is rewritten.
\<close>

theorem session_flag_off_counterexample:
  "\<not> inSuggestionMode (es_plugin (untracked_state doc_plain))
   \<and> insert_text (untracked_state doc_plain) 5 (asc ''X'') = Inr (typed_X\<lparr>tr_meta := None\<rparr>)
   \<and> (case appendTransaction (\<lambda>d p. p) 100 [typed_X] (untracked_state doc_plain)
              (state_apply (untracked_state doc_plain) typed_X) of
         Inr (Some tr) \<Rightarrow>
           tr_steps tr = [AddMarkStep 5 6 (create_mark ''suggestion_insert'' 100 ''alice'' [])]
       | _ \<Rightarrow> False)"
  by code_simp

lemmas eval_defs =
  appendTransaction_def init_tstate_def state_tr_def state_apply_def plugin_apply_def
  transform_transaction_def transform_step_def intermediate_doc_def begin_step_def
  reinsert_removed_def mark_inserted_def create_mark_def
  meta_inSuggestionMode_def meta_username_def meta_data_def meta_skipSuggestionOperation_def
  obj_spread_def skip_meta_def is_suggestion_mark_def
  tr_replace_def tr_delete_def tr_addMark_def tr_removeMark_def tr_step_def tr_mapping_def
  mapping_map_def remove_type_range_def remove_type_def map_marks_range_def
  doc_replace_def doc_slice_def frag_cut_def cut_before_def cut_after_def frag_append_def
  from_array_def marks_at_def drop_non_inclusive_def text_between_def is_space_def
  add_to_set_def same_set_def is_in_set_def mark_eq_def data_eq_def
  example_state_def example_schema_def example_mark_def doc_plain_def doc_hello_cat_def
  findSuggestionsInRange_def nodes_between_def collect_ranges_def visit_node_def visit_mark_def
  to_marked_range_def processSuggestionsInRange_def process_suggestion_def
  acceptSuggestionsInRange_def rejectSuggestionsInRange_def acceptAllSuggestions_def
  rejectAllSuggestions_def markToDelete_def insert_text_def apply_transaction_def untracked_state_def
  meta_tracking_on_def typed_X_def accepted_cat_def










lemma mapping_map_Nil [simp]: "mapping_map [] p = p"
  by (simp add: mapping_map_def)

lemma mapping_map_snoc: "mapping_map (ms @ [m]) p = nat (stepmap_map m 0 (mapping_map ms p) 1)"
  by (simp add: mapping_map_def)

lemma stepmap_map_empty [simp]: "nat (stepmap_map [] 0 p 1) = p"
  by simp

lemma stepmap_map_delete: "nat (stepmap_map [(f, l, 0)] 0 p 1) = delmap f l p"
  by (auto simp: delmap_def Let_def)

lemma delmap_mono: "p \<le> q \<Longrightarrow> delmap f l p \<le> delmap f l q"
  by (auto simp: delmap_def)

lemma delmap_le: "f + l \<le> n \<Longrightarrow> p \<le> n \<Longrightarrow> delmap f l p \<le> n - l"
  by (auto simp: delmap_def)

text \<open>What one edit of the resolver does to a transaction.\<close>

lemma tr_delete_cases:
  assumes "f \<le> t" "t \<le> frag_size (tr_doc tr)"
  shows "\<exists>tr'. tr_delete sch tr f t = Inr tr'
      \<and> scells (tr_doc tr') = take f (scells (tr_doc tr)) @ drop t (scells (tr_doc tr))
      \<and> frag_size (tr_doc tr') = frag_size (tr_doc tr) - (t - f)
      \<and> tr_meta tr' = tr_meta tr
      \<and> (\<forall>p. mapping_map (tr_mapping tr') p = delmap f (t - f) (mapping_map (tr_mapping tr) p))
      \<and> tr_steps tr' = tr_steps tr @ (if f = t then [] else [ReplaceStep f t []])"
proof (cases "f = t")
  case True
  have "delmap t 0 p = p" for p by (auto simp: delmap_def)
  with True show ?thesis
    by (simp add: tr_delete_def tr_replace_def)
next
  case False
  from assms obtain d' where d': "doc_replace (tr_doc tr) f t [] = Inr d'"
    using doc_replace_ok[of f "tr_doc tr" t "[]"] by auto
  have sc: "scells d' = take f (scells (tr_doc tr)) @ drop t (scells (tr_doc tr))"
    using scells_doc_replace[OF d'] by simp
  have sz: "frag_size d' = frag_size (tr_doc tr) - (t - f)"
    using frag_size_doc_replace[OF d' assms(1)] by simp
  have "tr_delete sch tr f t = Inr (tr\<lparr>tr_doc := d', tr_steps := tr_steps tr @ [ReplaceStep f t []]\<rparr>)"
    using False d' by (simp add: tr_delete_def tr_replace_def tr_step_def)
  moreover have "mapping_map (tr_mapping (tr\<lparr>tr_doc := d', tr_steps := tr_steps tr @ [ReplaceStep f t []]\<rparr>)) p
        = delmap f (t - f) (mapping_map (tr_mapping tr) p)" for p
    by (simp add: tr_mapping_def mapping_map_snoc stepmap_map_delete del: stepmap_map.simps)
  ultimately show ?thesis using sc sz False by simp
qed

lemma mark_key_remove_type:
  "map mark_key (remove_type ty ms) = filter (\<lambda>k. fst k \<noteq> ty) (map mark_key ms)"
  by (induction ms) (simp_all add: remove_type_def mark_key_def)

lemma tr_removeMark_cases:
  assumes "f \<le> t" "t \<le> frag_size (tr_doc tr)"
  shows "\<exists>tr'. tr_removeMark sch tr f t m = Inr tr'
      \<and> scells (tr_doc tr') = take f (scells (tr_doc tr))
           @ map (\<lambda>c. (fst c, filter (\<lambda>k. fst k \<noteq> mark_type m) (snd c)))
               (take (t - f) (drop f (scells (tr_doc tr))))
           @ drop t (scells (tr_doc tr))
      \<and> frag_size (tr_doc tr') = frag_size (tr_doc tr)
      \<and> tr_meta tr' = tr_meta tr
      \<and> (\<forall>p. mapping_map (tr_mapping tr') p = mapping_map (tr_mapping tr) p)
      \<and> tr_steps tr' = tr_steps tr @ (if f = t then [] else [RemoveMarkStep f t m])"
proof (cases "f = t")
  case True
  with assms show ?thesis
    by (simp add: tr_removeMark_def)
next
  case False
  with assms have lt: "f < t" by simp
  from assms obtain d' where d': "remove_type_range (mark_type m) (tr_doc tr) f t = Inr d'"
    using map_marks_range_ok[of f "tr_doc tr" t "remove_type (mark_type m)"]
    by (auto simp: remove_type_range_def)
  have sc: "scells d' = take f (scells (tr_doc tr))
           @ map (\<lambda>c. (fst c, filter (\<lambda>k. fst k \<noteq> mark_type m) (snd c)))
               (take (t - f) (drop f (scells (tr_doc tr))))
           @ drop t (scells (tr_doc tr))"
    using scells_map_marks_range[of "remove_type (mark_type m)"
        "filter (\<lambda>k. fst k \<noteq> mark_type m)" "tr_doc tr" f t d'] d'
    by (simp add: remove_type_range_def mark_key_remove_type)
  have sz: "frag_size d' = frag_size (tr_doc tr)"
    using frag_size_map_marks_range[of "remove_type (mark_type m)" "tr_doc tr" f t d'] d' assms(1)
    by (simp add: remove_type_range_def)
  have "tr_removeMark sch tr f t m
      = Inr (tr\<lparr>tr_doc := d', tr_steps := tr_steps tr @ [RemoveMarkStep f t m]\<rparr>)"
    using lt assms d' by (simp add: tr_removeMark_def)
  moreover have "mapping_map (tr_mapping (tr\<lparr>tr_doc := d', tr_steps := tr_steps tr @ [RemoveMarkStep f t m]\<rparr>)) p
        = mapping_map (tr_mapping tr) p" for p
    by (simp add: tr_mapping_def mapping_map_snoc)
  ultimately show ?thesis using sc sz False by simp
qed

lemma nonempty_add_node:
  "list_all nonempty_node ns \<Longrightarrow> nonempty_node c \<Longrightarrow> list_all nonempty_node (add_node ns c)"
  by (induction ns c rule: add_node.induct) auto

lemma nonempty_foldl_add_node:
  "list_all nonempty_node acc \<Longrightarrow> list_all nonempty_node ns \<Longrightarrow>
   list_all nonempty_node (foldl add_node acc ns)"
  by (induction ns arbitrary: acc) (auto simp: nonempty_add_node)

lemma nonempty_from_array:
  "list_all nonempty_node ns \<Longrightarrow> list_all nonempty_node (from_array ns)"
  by (simp add: from_array_def nonempty_foldl_add_node)

lemma nonempty_append_join:
  "list_all nonempty_node a \<Longrightarrow> list_all nonempty_node b \<Longrightarrow>
   list_all nonempty_node (append_join a b)"
  by (induction a b rule: append_join.induct) auto

lemma nonempty_frag_append:
  "list_all nonempty_node a \<Longrightarrow> list_all nonempty_node b \<Longrightarrow>
   list_all nonempty_node (frag_append a b)"
  by (simp add: frag_append_def nonempty_append_join)

lemma frag_split_parts:
  "frag_split d p = (a, m, b) \<Longrightarrow> list_all nonempty_node d \<Longrightarrow>
   list_all nonempty_node a \<and> list_all nonempty_node b
   \<and> (case m of None \<Rightarrow> True | Some (c, off) \<Rightarrow> 0 < off \<and> off < node_size c)"
proof (induction d p arbitrary: a m b rule: frag_split.induct)
  case (1 pos)
  then show ?case by simp
next
  case (2 c cs pos)
  show ?case
  proof (cases "pos = 0")
    case True
    with 2 show ?thesis by auto
  next
    case False
    show ?thesis
    proof (cases "pos < node_size c")
      case True
      with False 2 show ?thesis by auto
    next
      case ge: False
      obtain a' m' b' where s: "frag_split cs (pos - node_size c) = (a', m', b')"
        by (cases "frag_split cs (pos - node_size c)") auto
      with 2(1)[OF False ge s] 2(2,3) False ge show ?thesis by auto
    qed
  qed
qed

lemma nonempty_node_cut:
  "a < b \<Longrightarrow> b \<le> node_size c \<Longrightarrow> nonempty_node (node_cut c a b)"
  by (cases c) auto

lemma nonempty_cut_before:
  "list_all nonempty_node d \<Longrightarrow> list_all nonempty_node (cut_before d p)"
proof -
  assume h: "list_all nonempty_node d"
  obtain a m b where s: "frag_split d p = (a, m, b)" by (cases "frag_split d p") auto
  from frag_split_parts[OF s h] s show ?thesis
    by (auto simp: cut_before_def nonempty_node_cut split: option.splits)
qed

lemma nonempty_cut_after:
  "list_all nonempty_node d \<Longrightarrow> list_all nonempty_node (cut_after d p)"
proof -
  assume h: "list_all nonempty_node d"
  obtain a m b where s: "frag_split d p = (a, m, b)" by (cases "frag_split d p") auto
  from frag_split_parts[OF s h] s show ?thesis
    by (auto simp: cut_after_def nonempty_node_cut split: option.splits)
qed

lemma nonempty_frag_cut:
  "list_all nonempty_node d \<Longrightarrow> list_all nonempty_node (frag_cut d f t)"
  by (simp add: frag_cut_def nonempty_cut_before nonempty_cut_after)

lemma nonempty_set_marks [simp]: "nonempty_node (set_marks ms n) = nonempty_node n"
  by (cases n) simp_all

lemma nonempty_doc_replace:
  assumes "doc_replace d f t sl = Inr d'" "list_all nonempty_node d" "list_all nonempty_node sl"
  shows "list_all nonempty_node d'"
  using assms
  by (auto simp: doc_replace_def nonempty_foldl_add_node nonempty_frag_append nonempty_cut_before
      nonempty_cut_after split: if_splits)

lemma nonempty_map_marks_range:
  assumes "map_marks_range g d f t = Inr d'" "list_all nonempty_node d"
  shows "list_all nonempty_node d'"
proof -
  from assms(1) obtain sl where sl: "doc_slice d f t = Inr sl"
    and rep: "doc_replace d f t (from_array (map (\<lambda>n. set_marks (g (node_marks n)) n) sl)) = Inr d'"
    by (auto simp: map_marks_range_def split: sum.splits)
  from sl have "sl = frag_cut d f t" by (simp add: doc_slice_Inr)
  then have "list_all nonempty_node sl" using assms(2) by (simp add: nonempty_frag_cut)
  then have "list_all nonempty_node (from_array (map (\<lambda>n. set_marks (g (node_marks n)) n) sl))"
    by (intro nonempty_from_array) (simp add: list_all_iff)
  with rep assms(2) show ?thesis by (rule nonempty_doc_replace[rotated 2, rotated])
qed

lemma tr_delete_nonempty:
  "tr_delete sch tr f t = Inr tr' \<Longrightarrow> list_all nonempty_node (tr_doc tr) \<Longrightarrow>
   list_all nonempty_node (tr_doc tr')"
  by (auto simp: tr_delete_def tr_replace_def tr_step_def split: if_splits sum.splits
      dest: nonempty_doc_replace)

lemma tr_removeMark_nonempty:
  "tr_removeMark sch tr f t m = Inr tr' \<Longrightarrow> list_all nonempty_node (tr_doc tr) \<Longrightarrow>
   list_all nonempty_node (tr_doc tr')"
  by (auto simp: tr_removeMark_def remove_type_range_def split: if_splits sum.splits
      dest: nonempty_map_marks_range)

lemma process_suggestion_nonempty:
  "process_suggestion sch a tr s = Inr tr' \<Longrightarrow> list_all nonempty_node (tr_doc tr) \<Longrightarrow>
   list_all nonempty_node (tr_doc tr')"
  by (auto simp: process_suggestion_def Let_def split: if_splits
      dest: tr_delete_nonempty tr_removeMark_nonempty)

lemma process_suggestions_nonempty:
  "process_suggestions sch a tr ss = Inr tr' \<Longrightarrow> list_all nonempty_node (tr_doc tr) \<Longrightarrow>
   list_all nonempty_node (tr_doc tr')"
  by (induction ss arbitrary: tr) (auto split: sum.splits dest: process_suggestion_nonempty)

text \<open>Every position lies in a node, and carries that node's marks.\<close>

lemma node_at_position:
  assumes "x < frag_size d"
  shows "\<exists>n pos. (n, pos) \<in> set (node_positions q d) \<and> pos \<le> q + x \<and> q + x < pos + node_size n
           \<and> snd (cells d ! x) = node_marks n"
  using assms
proof (induction d arbitrary: q x)
  case Nil
  then show ?case by simp
next
  case (Cons c cs)
  show ?case
  proof (cases "x < node_size c")
    case True
    have "snd (cells (c # cs) ! x) = node_marks c"
      using True by (cases c) (auto simp: nth_append)
    with True show ?thesis by (intro exI[of _ c] exI[of _ q]) auto
  next
    case False
    then have "x - node_size c < frag_size cs" using Cons.prems by simp
    from Cons.IH[OF this, of "q + node_size c"] obtain n pos where
      h: "(n, pos) \<in> set (node_positions (q + node_size c) cs)"
         "pos \<le> q + node_size c + (x - node_size c)"
         "q + node_size c + (x - node_size c) < pos + node_size n"
         "snd (cells cs ! (x - node_size c)) = node_marks n"
      by blast
    have "cells (c # cs) ! x = cells cs ! (x - node_size c)"
      using False by (simp add: nth_append)
    with h False show ?thesis by auto
  qed
qed

lemma position_in_node:
  assumes "(n, pos) \<in> set (node_positions q d)" "i < node_size n"
  shows "q \<le> pos \<and> pos + i - q < frag_size d \<and> snd (cells d ! (pos + i - q)) = node_marks n"
  using assms
proof (induction d arbitrary: q)
  case Nil
  then show ?case by simp
next
  case (Cons c cs)
  from Cons.prems(1) have "(n, pos) = (c, q) \<or> (n, pos) \<in> set (node_positions (q + node_size c) cs)"
    by simp
  then show ?case
  proof
    assume e: "(n, pos) = (c, q)"
    with Cons.prems(2) have "snd (cells (c # cs) ! i) = node_marks c"
      by (cases c) (auto simp: nth_append)
    with e Cons.prems(2) show ?thesis by auto
  next
    assume m: "(n, pos) \<in> set (node_positions (q + node_size c) cs)"
    from Cons.IH[OF m Cons.prems(2)] have
      h: "q + node_size c \<le> pos" "pos + i - (q + node_size c) < frag_size cs"
         "snd (cells cs ! (pos + i - (q + node_size c))) = node_marks n"
      by auto
    have "\<not> pos + i - q < node_size c" using h(1) by linarith
    then have "cells (c # cs) ! (pos + i - q) = cells cs ! (pos + i - q - node_size c)"
      by (simp add: nth_append)
    moreover have "pos + i - q - node_size c = pos + i - (q + node_size c)" by simp
    ultimately show ?thesis using h by auto
  qed
qed

lemma node_positions_bounds:
  "(n, p) \<in> set (node_positions q d) \<Longrightarrow> q \<le> p \<and> p + node_size n \<le> q + frag_size d"
proof (induction d arbitrary: q)
  case Nil
  then show ?case by simp
next
  case (Cons c cs)
  from Cons.prems have "(n, p) = (c, q) \<or> (n, p) \<in> set (node_positions (q + node_size c) cs)"
    by simp
  then show ?case
  proof
    assume "(n, p) = (c, q)" then show ?thesis by simp
  next
    assume "(n, p) \<in> set (node_positions (q + node_size c) cs)"
    from Cons.IH[OF this] show ?thesis by simp
  qed
qed

lemma findSuggestionsInRange_Inr:
  assumes "findSuggestionsInRange state from to = Inr rs"
  shows "to \<le> frag_size (es_doc state)
       \<and> rs = map to_marked_range (collect_ranges (overlapping (es_doc state) from to))"
proof -
  have le: "to \<le> frag_size (es_doc state)"
  proof (rule ccontr)
    assume "\<not> to \<le> frag_size (es_doc state)"
    then have "nodes_between (es_doc state) from to = Inl TypeError"
      by (simp add: nodes_between_err)
    with assms show False by (simp add: findSuggestionsInRange_def)
  qed
  with assms show ?thesis
    by (simp add: findSuggestionsInRange_def nodes_between_ok)
qed

lemma located_span_bounds:
  assumes "(m, f, t) \<in> set (collect_ranges (overlapping d from to))"
  shows "f \<le> t \<and> t \<le> frag_size d \<and> is_suggestion_mark m"
proof -
  let ?C = "{v \<in> set (overlapping d from to). carries m v}"
  from assms have ne: "?C \<noteq> {}" and f: "f = Min (snd ` ?C)"
    and t: "t = Max ((\<lambda>v. snd v + node_size (fst v)) ` ?C)" and sg: "is_suggestion_mark m"
    by (simp_all add: collect_ranges_entry)
  from ne obtain v where v: "v \<in> ?C" by blast
  have fin: "finite ?C" by simp
  have "f \<le> snd v" unfolding f using v fin by (intro Min_le) auto
  moreover have "snd v + node_size (fst v) \<le> t" unfolding t using v fin by (intro Max_ge) auto
  ultimately have ft: "f \<le> t" by simp
  have "\<forall>u \<in> ?C. snd u + node_size (fst u) \<le> frag_size d"
  proof
    fix u assume "u \<in> ?C"
    then have "(fst u, snd u) \<in> set (node_positions 0 d)" by (simp add: overlapping_def)
    from node_positions_bounds[OF this] show "snd u + node_size (fst u) \<le> frag_size d" by simp
  qed
  then have "t \<le> frag_size d" unfolding t using ne fin by (subst Max_le_iff) auto
  with ft sg show ?thesis by simp
qed

lemma located_spans_fit:
  assumes "findSuggestionsInRange state from to = Inr rs" "tr_doc tr = es_doc state" "tr_steps tr = []"
  shows "spans_fit tr rs"
proof -
  from findSuggestionsInRange_Inr[OF assms(1)]
  have rs: "rs = map to_marked_range (collect_ranges (overlapping (es_doc state) from to))" by simp
  have "\<forall>s \<in> set rs. mr_from s \<le> mr_to s \<and> mr_to s \<le> frag_size (es_doc state)"
  proof
    fix s assume "s \<in> set rs"
    then obtain e where e: "e \<in> set (collect_ranges (overlapping (es_doc state) from to))"
      and s: "s = to_marked_range e" using rs by auto
    obtain m f t where "e = (m, f, t)" by (cases e) auto
    with e s located_span_bounds[of m f t "es_doc state" "from" to]
    show "mr_from s \<le> mr_to s \<and> mr_to s \<le> frag_size (es_doc state)"
      by (simp add: to_marked_range_def)
  qed
  then show ?thesis
    using assms(2,3) by (simp add: spans_fit_def tr_mapping_def list_all_iff mono_def)
qed

lemma located_spans_suggestion:
  assumes "findSuggestionsInRange state from to = Inr rs" "s \<in> set rs"
  shows "is_suggestion_mark (mr_mark s)"
proof -
  from findSuggestionsInRange_Inr[OF assms(1)] assms(2)
  obtain e where e: "e \<in> set (collect_ranges (overlapping (es_doc state) from to))"
      and s: "s = to_marked_range e" by auto
  obtain m f t where "e = (m, f, t)" by (cases e) auto
  with e s located_span_bounds[of m f t "es_doc state" "from" to] show ?thesis
    by (simp add: to_marked_range_def)
qed

text \<open>One span of the batch: the edit succeeds, and this is what it does.\<close>

lemma process_suggestion_effect:
  assumes "spans_fit tr (s # ss)"
  shows "\<exists>tr'. process_suggestion sch a tr s = Inr tr' \<and> spans_fit tr' ss
      \<and> mapping_map (tr_mapping tr) (mr_from s) \<le> mapping_map (tr_mapping tr) (mr_to s)
      \<and> mapping_map (tr_mapping tr) (mr_to s) \<le> frag_size (tr_doc tr)
      \<and> tr_meta tr' = tr_meta tr
      \<and> (if mark_type (mr_mark s) = markToDelete a
          then scells (tr_doc tr') =
                 take (mapping_map (tr_mapping tr) (mr_from s)) (scells (tr_doc tr))
                 @ drop (mapping_map (tr_mapping tr) (mr_to s)) (scells (tr_doc tr))
             \<and> (\<forall>p. mapping_map (tr_mapping tr') p =
                    delmap (mapping_map (tr_mapping tr) (mr_from s))
                      (mapping_map (tr_mapping tr) (mr_to s) - mapping_map (tr_mapping tr) (mr_from s))
                      (mapping_map (tr_mapping tr) p))
          else scells (tr_doc tr') =
                 take (mapping_map (tr_mapping tr) (mr_from s)) (scells (tr_doc tr))
                 @ map (\<lambda>c. (fst c, filter (\<lambda>k. fst k \<noteq> mark_type (mr_mark s)) (snd c)))
                     (take (mapping_map (tr_mapping tr) (mr_to s) - mapping_map (tr_mapping tr) (mr_from s))
                        (drop (mapping_map (tr_mapping tr) (mr_from s)) (scells (tr_doc tr))))
                 @ drop (mapping_map (tr_mapping tr) (mr_to s)) (scells (tr_doc tr))
             \<and> (\<forall>p. mapping_map (tr_mapping tr') p = mapping_map (tr_mapping tr) p))"
proof -
  let ?M = "mapping_map (tr_mapping tr)"
  let ?F = "?M (mr_from s)" and ?T = "?M (mr_to s)"
  from assms have mono: "mono ?M" and ft: "mr_from s \<le> mr_to s"
    and T: "?T \<le> frag_size (tr_doc tr)"
    and rest: "list_all (\<lambda>s. mr_from s \<le> mr_to s \<and> ?M (mr_to s) \<le> frag_size (tr_doc tr)) ss"
    by (simp_all add: spans_fit_def)
  from mono ft have FT: "?F \<le> ?T" by (simp add: monoD)
  show ?thesis
  proof (cases "mark_type (mr_mark s) = markToDelete a")
    case True
    from tr_delete_cases[OF FT T, of sch] obtain tr' where
      d: "tr_delete sch tr ?F ?T = Inr tr'"
      and sc: "scells (tr_doc tr') = take ?F (scells (tr_doc tr)) @ drop ?T (scells (tr_doc tr))"
      and sz: "frag_size (tr_doc tr') = frag_size (tr_doc tr) - (?T - ?F)"
      and me: "tr_meta tr' = tr_meta tr"
      and mp: "\<forall>p. mapping_map (tr_mapping tr') p = delmap ?F (?T - ?F) (?M p)"
      by blast
    have ps: "process_suggestion sch a tr s = Inr tr'"
      using True d by (simp add: process_suggestion_def Let_def)
    have mono': "mono (mapping_map (tr_mapping tr'))"
      using mono mp by (auto simp: mono_def intro: delmap_mono)
    have "list_all (\<lambda>s. mr_from s \<le> mr_to s
              \<and> mapping_map (tr_mapping tr') (mr_to s) \<le> frag_size (tr_doc tr')) ss"
      unfolding list_all_iff
    proof
      fix u assume u: "u \<in> set ss"
      with rest have a: "mr_from u \<le> mr_to u" and b: "?M (mr_to u) \<le> frag_size (tr_doc tr)"
        by (simp_all add: list_all_iff)
      have "?F + (?T - ?F) \<le> frag_size (tr_doc tr)" using FT T by simp
      from delmap_le[OF this b] have "delmap ?F (?T - ?F) (?M (mr_to u)) \<le> frag_size (tr_doc tr')"
        by (simp add: sz)
      with a mp show "mr_from u \<le> mr_to u
          \<and> mapping_map (tr_mapping tr') (mr_to u) \<le> frag_size (tr_doc tr')" by simp
    qed
    with mono' have "spans_fit tr' ss" by (simp add: spans_fit_def)
    with ps FT T me sc mp True show ?thesis by auto
  next
    case False
    from tr_removeMark_cases[OF FT T, of sch "mr_mark s"] obtain tr' where
      d: "tr_removeMark sch tr ?F ?T (mr_mark s) = Inr tr'"
      and sc: "scells (tr_doc tr') = take ?F (scells (tr_doc tr))
           @ map (\<lambda>c. (fst c, filter (\<lambda>k. fst k \<noteq> mark_type (mr_mark s)) (snd c)))
               (take (?T - ?F) (drop ?F (scells (tr_doc tr))))
           @ drop ?T (scells (tr_doc tr))"
      and sz: "frag_size (tr_doc tr') = frag_size (tr_doc tr)"
      and me: "tr_meta tr' = tr_meta tr"
      and mp: "\<forall>p. mapping_map (tr_mapping tr') p = ?M p"
      by blast
    have ps: "process_suggestion sch a tr s = Inr tr'"
      using False d by (simp add: process_suggestion_def Let_def)
    from mp have eq: "mapping_map (tr_mapping tr') = ?M" by auto
    have "spans_fit tr' ss"
      using mono rest sz by (simp add: spans_fit_def eq)
    with ps FT T me sc mp False show ?thesis by auto
  qed
qed

lemma process_suggestions_append:
  "process_suggestions sch a tr (xs @ ys) =
     (case process_suggestions sch a tr xs of
        Inl e \<Rightarrow> Inl e
      | Inr tri \<Rightarrow> process_suggestions sch a tri ys)"
  by (induction xs arbitrary: tr) (auto split: sum.splits)

lemma process_suggestions_fit:
  assumes "spans_fit tr (xs @ ys)"
  shows "\<exists>tri. process_suggestions sch a tr xs = Inr tri \<and> spans_fit tri ys
           \<and> (\<exists>new. tr_steps tri = tr_steps tr @ new)"
  using assms
proof (induction xs arbitrary: tr)
  case Nil
  then show ?case by simp
next
  case (Cons x xs)
  from process_suggestion_effect[of tr x "xs @ ys" sch a] Cons.prems
  obtain tr' where p: "process_suggestion sch a tr x = Inr tr'" and f: "spans_fit tr' (xs @ ys)"
    by auto
  have st: "\<exists>new. tr_steps tr' = tr_steps tr @ new"
    using p
    by (auto simp: process_suggestion_def tr_delete_def tr_replace_def tr_step_def
        tr_removeMark_def Let_def split: if_splits sum.splits)
  from Cons.IH[OF f] obtain tri where
    "process_suggestions sch a tr' xs = Inr tri" "spans_fit tri ys"
    "\<exists>new. tr_steps tri = tr_steps tr' @ new" by blast
  with p st show ?case by auto
qed

lemma ptoks_take_drop:
  "scells d' = take f (scells d) @ drop t (scells d) \<Longrightarrow>
   ptoks d' = take f (ptoks d) @ drop t (ptoks d) \<and> ptypes d' = take f (ptypes d) @ drop t (ptypes d)"
  by (simp add: ptoks_scells ptypes_scells take_map drop_map)

lemma map_fst_filter: "map fst (filter (\<lambda>k. fst k \<noteq> ty) ks) = filter (\<lambda>x. x \<noteq> ty) (map fst ks)"
  by (induction ks) auto

lemma ptoks_filter_range:
  assumes "scells d' = take f (scells d)
            @ map (\<lambda>c. (fst c, filter (\<lambda>k. fst k \<noteq> ty) (snd c))) (take (t - f) (drop f (scells d)))
            @ drop t (scells d)" "f \<le> t"
  shows "ptoks d' = ptoks d
       \<and> ptypes d' = take f (ptypes d)
            @ map (filter (\<lambda>x. x \<noteq> ty)) (take (t - f) (drop f (ptypes d))) @ drop t (ptypes d)"
proof -
  have "ptoks d' = map fst (take f (scells d) @ take (t - f) (drop f (scells d)) @ drop t (scells d))"
    using assms(1) by (simp add: ptoks_scells comp_def)
  then have 1: "ptoks d' = ptoks d" using assms(2) by (simp add: take_mid_drop ptoks_scells)
  have 2: "ptypes d' = take f (ptypes d)
            @ map (filter (\<lambda>x. x \<noteq> ty)) (take (t - f) (drop f (ptypes d))) @ drop t (ptypes d)"
    using assms(1) by (simp add: ptypes_scells take_map drop_map comp_def map_fst_filter)
  from 1 2 show ?thesis by simp
qed

lemma resolver_decomposition:
  assumes "findSuggestionsInRange state from to = Inr (xs @ s # ys)"
  shows "\<exists>tri trj trF.
      processSuggestionsInRange a from to state True = Inr (True, Some trF)
    \<and> process_suggestions (es_schema state) a ((state_tr state)\<lparr>tr_meta := Some skip_meta\<rparr>) xs = Inr tri
    \<and> process_suggestion (es_schema state) a tri s = Inr trj
    \<and> process_suggestions (es_schema state) a trj ys = Inr trF
    \<and> spans_fit tri (s # ys)"
proof -
  let ?tr0 = "(state_tr state)\<lparr>tr_meta := Some skip_meta\<rparr>"
  have fit0: "spans_fit ?tr0 (xs @ s # ys)"
    by (rule located_spans_fit[OF assms]) (simp_all add: state_tr_def)
  from process_suggestions_fit[OF fit0, of "es_schema state" a] obtain tri where
    i: "process_suggestions (es_schema state) a ?tr0 xs = Inr tri" and fi: "spans_fit tri (s # ys)"
    by blast
  from process_suggestion_effect[OF fi, of "es_schema state" a] obtain trj where
    j: "process_suggestion (es_schema state) a tri s = Inr trj" and fj: "spans_fit trj ys"
    by blast
  from process_suggestions_fit[of trj ys "[]" "es_schema state" a] fj obtain trF where
    f: "process_suggestions (es_schema state) a trj ys = Inr trF" by auto
  have "process_suggestions (es_schema state) a ?tr0 (xs @ s # ys) = Inr trF"
    using i j f by (simp add: process_suggestions_append)
  then have "processSuggestionsInRange a from to state True = Inr (True, Some trF)"
    using assms by (simp add: processSuggestionsInRange_def)
  with i j f fi show ?thesis by blast
qed

text \<open>
  C3. In one accept/reject call every span is edited at its located positions mapped
  through \<^verbatim>\<open>tr.mapping\<close>, and at that moment the transaction holds exactly the edits of
  the spans before it: its steps are theirs, its document is the one they produced, and
  the mapped positions lie inside that document.
\<close>

theorem later_spans_are_remapped:
  assumes "findSuggestionsInRange state from to = Inr (xs @ s # ys)"
  shows "\<exists>tri trj trF.
      processSuggestionsInRange a from to state True = Inr (True, Some trF)
    \<and> process_suggestions (es_schema state) a ((state_tr state)\<lparr>tr_meta := Some skip_meta\<rparr>) xs = Inr tri
    \<and> process_suggestions (es_schema state) a trj ys = Inr trF
    \<and> mapping_map (map step_map (tr_steps tri)) (mr_from s)
        \<le> mapping_map (map step_map (tr_steps tri)) (mr_to s)
    \<and> mapping_map (map step_map (tr_steps tri)) (mr_to s) \<le> frag_size (tr_doc tri)
    \<and> (if mark_type (mr_mark s) = markToDelete a
        then tr_delete (es_schema state) tri
               (mapping_map (map step_map (tr_steps tri)) (mr_from s))
               (mapping_map (map step_map (tr_steps tri)) (mr_to s)) = Inr trj
        else tr_removeMark (es_schema state) tri
               (mapping_map (map step_map (tr_steps tri)) (mr_from s))
               (mapping_map (map step_map (tr_steps tri)) (mr_to s)) (mr_mark s) = Inr trj)"
proof -
  from resolver_decomposition[OF assms, of a] obtain tri trj trF where
    h: "processSuggestionsInRange a from to state True = Inr (True, Some trF)"
       "process_suggestions (es_schema state) a ((state_tr state)\<lparr>tr_meta := Some skip_meta\<rparr>) xs = Inr tri"
       "process_suggestion (es_schema state) a tri s = Inr trj"
       "process_suggestions (es_schema state) a trj ys = Inr trF"
       "spans_fit tri (s # ys)"
    by blast
  from process_suggestion_effect[OF h(5), of "es_schema state" a]
  have b: "mapping_map (tr_mapping tri) (mr_from s) \<le> mapping_map (tr_mapping tri) (mr_to s)"
    "mapping_map (tr_mapping tri) (mr_to s) \<le> frag_size (tr_doc tri)"
    by auto
  from h(3) have e: "(if mark_type (mr_mark s) = markToDelete a
        then tr_delete (es_schema state) tri
               (mapping_map (tr_mapping tri) (mr_from s))
               (mapping_map (tr_mapping tri) (mr_to s)) = Inr trj
        else tr_removeMark (es_schema state) tri
               (mapping_map (tr_mapping tri) (mr_from s))
               (mapping_map (tr_mapping tri) (mr_to s)) (mr_mark s) = Inr trj)"
    by (simp add: process_suggestion_def Let_def split: if_splits)
  from h(1,2,4) b e show ?thesis
    unfolding tr_mapping_def by blast
qed

lemmas eval_defs2 = eval_defs doc_two_spans_def

theorem later_spans_are_remapped_witness:
  "findSuggestionsInRange (example_state doc_two_spans) 0 8 =
     Inr ([\<lparr>mr_mark = example_mark 1 ''suggestion_delete'', mr_from = 0, mr_to = 2\<rparr>]
          @ \<lparr>mr_mark = example_mark 2 ''suggestion_insert'', mr_from = 4, mr_to = 6\<rparr> # [])
   \<and> (case processSuggestionsInRange Accept 0 8 (example_state doc_two_spans) True of
         Inr (b, Some tr) \<Rightarrow>
           tr_steps tr = [ReplaceStep 0 2 [], RemoveMarkStep 2 4 (example_mark 2 ''suggestion_insert'')]
           \<and> tr_doc tr = [Text [] (asc ''cdefgh'')]
       | _ \<Rightarrow> False)"
proof -
  have a: "findSuggestionsInRange (example_state doc_two_spans) 0 8 =
     Inr ([\<lparr>mr_mark = example_mark 1 ''suggestion_delete'', mr_from = 0, mr_to = 2\<rparr>]
          @ \<lparr>mr_mark = example_mark 2 ''suggestion_insert'', mr_from = 4, mr_to = 6\<rparr> # [])"
    by (simp add: eval_defs2)
  have b: "(case processSuggestionsInRange Accept 0 8 (example_state doc_two_spans) True of
         Inr (b, Some tr) \<Rightarrow>
           tr_steps tr = [ReplaceStep 0 2 [], RemoveMarkStep 2 4 (example_mark 2 ''suggestion_insert'')]
           \<and> tr_doc tr = [Text [] (asc ''cdefgh'')]
       | _ \<Rightarrow> False)"
    by (simp add: eval_defs2 Let_def)
  from later_spans_are_remapped[OF a, of Accept] a b show ?thesis by blast
qed

text \<open>
  The edit of one span in the middle of a batch, in the document the earlier spans have
  left: the kind removed as content loses the positions of its mapped range, the other
  kind keeps every position and loses the marks of its type in its mapped range.
\<close>

lemma span_edit_in_batch:
  assumes "findSuggestionsInRange state from to = Inr (xs @ s # ys)"
  shows "\<exists>tri trj trF.
      processSuggestionsInRange a from to state True = Inr (True, Some trF)
    \<and> process_suggestions (es_schema state) a ((state_tr state)\<lparr>tr_meta := Some skip_meta\<rparr>) xs = Inr tri
    \<and> process_suggestion (es_schema state) a tri s = Inr trj
    \<and> process_suggestions (es_schema state) a trj ys = Inr trF
    \<and> is_suggestion_mark (mr_mark s)
    \<and> markToDelete Accept = ''suggestion_delete'' \<and> markToDelete Reject = ''suggestion_insert''
    \<and> (if mark_type (mr_mark s) = markToDelete a
        then ptoks (tr_doc trj) =
               take (mapping_map (tr_mapping tri) (mr_from s)) (ptoks (tr_doc tri))
               @ drop (mapping_map (tr_mapping tri) (mr_to s)) (ptoks (tr_doc tri))
           \<and> ptypes (tr_doc trj) =
               take (mapping_map (tr_mapping tri) (mr_from s)) (ptypes (tr_doc tri))
               @ drop (mapping_map (tr_mapping tri) (mr_to s)) (ptypes (tr_doc tri))
        else ptoks (tr_doc trj) = ptoks (tr_doc tri)
           \<and> ptypes (tr_doc trj) =
               take (mapping_map (tr_mapping tri) (mr_from s)) (ptypes (tr_doc tri))
               @ map (filter (\<lambda>ty. ty \<noteq> mark_type (mr_mark s)))
                   (take (mapping_map (tr_mapping tri) (mr_to s) - mapping_map (tr_mapping tri) (mr_from s))
                      (drop (mapping_map (tr_mapping tri) (mr_from s)) (ptypes (tr_doc tri))))
               @ drop (mapping_map (tr_mapping tri) (mr_to s)) (ptypes (tr_doc tri)))"
proof -
  from resolver_decomposition[OF assms, of a] obtain tri trj trF where
    h: "processSuggestionsInRange a from to state True = Inr (True, Some trF)"
       "process_suggestions (es_schema state) a ((state_tr state)\<lparr>tr_meta := Some skip_meta\<rparr>) xs = Inr tri"
       "process_suggestion (es_schema state) a tri s = Inr trj"
       "process_suggestions (es_schema state) a trj ys = Inr trF"
       "spans_fit tri (s # ys)"
    by blast
  let ?F = "mapping_map (tr_mapping tri) (mr_from s)" and ?T = "mapping_map (tr_mapping tri) (mr_to s)"
  from process_suggestion_effect[OF h(5), of "es_schema state" a] h(3)
  have FT: "?F \<le> ?T"
    and eff: "(if mark_type (mr_mark s) = markToDelete a
          then scells (tr_doc trj) = take ?F (scells (tr_doc tri)) @ drop ?T (scells (tr_doc tri))
          else scells (tr_doc trj) =
                 take ?F (scells (tr_doc tri))
                 @ map (\<lambda>c. (fst c, filter (\<lambda>k. fst k \<noteq> mark_type (mr_mark s)) (snd c)))
                     (take (?T - ?F) (drop ?F (scells (tr_doc tri))))
                 @ drop ?T (scells (tr_doc tri)))"
    by (auto split: if_splits)
  have sg: "is_suggestion_mark (mr_mark s)"
    by (rule located_spans_suggestion[OF assms]) simp
  have c: "(if mark_type (mr_mark s) = markToDelete a
        then ptoks (tr_doc trj) = take ?F (ptoks (tr_doc tri)) @ drop ?T (ptoks (tr_doc tri))
           \<and> ptypes (tr_doc trj) = take ?F (ptypes (tr_doc tri)) @ drop ?T (ptypes (tr_doc tri))
        else ptoks (tr_doc trj) = ptoks (tr_doc tri)
           \<and> ptypes (tr_doc trj) =
               take ?F (ptypes (tr_doc tri))
               @ map (filter (\<lambda>ty. ty \<noteq> mark_type (mr_mark s)))
                   (take (?T - ?F) (drop ?F (ptypes (tr_doc tri))))
               @ drop ?T (ptypes (tr_doc tri)))"
  proof (cases "mark_type (mr_mark s) = markToDelete a")
    case True
    with eff ptoks_take_drop[of "tr_doc trj" ?F "tr_doc tri" ?T] show ?thesis by simp
  next
    case False
    with eff ptoks_filter_range[of "tr_doc trj" ?F "tr_doc tri" "mark_type (mr_mark s)" ?T, OF _ FT]
    show ?thesis by simp
  qed
  have k: "markToDelete Accept = ''suggestion_delete'' \<and> markToDelete Reject = ''suggestion_insert''"
    by (simp add: markToDelete_def)
  from h(1-4) sg k c show ?thesis by blast
qed

lemma length_ptypes [simp]: "length (ptypes d) = frag_size d"
  by (simp add: ptypes_def)

lemma delmap_cover_lt:
  "F \<le> T \<Longrightarrow> a \<le> x \<Longrightarrow> x < b \<Longrightarrow> x < F \<Longrightarrow>
   delmap F (T - F) a \<le> x \<and> x < delmap F (T - F) b"
  by (auto simp: delmap_def)

lemma delmap_cover_ge:
  "F \<le> T \<Longrightarrow> a \<le> x \<Longrightarrow> x < b \<Longrightarrow> T \<le> x \<Longrightarrow>
   delmap F (T - F) a \<le> x - (T - F) \<and> x - (T - F) < delmap F (T - F) b"
  by (auto simp: delmap_def)

lemma nth_take_drop:
  assumes "F \<le> T" "T \<le> length xs" "x < length xs - (T - F)"
  shows "(take F xs @ drop T xs) ! x = (if x < F then xs ! x else xs ! (x + (T - F)))"
proof (cases "x < F")
  case True
  with assms show ?thesis by (simp add: nth_append)
next
  case False
  with assms have "(take F xs @ drop T xs) ! x = drop T xs ! (x - F)"
    by (simp add: nth_append min_def)
  also have "\<dots> = xs ! (T + (x - F))" using assms by (intro nth_drop) simp
  also have "T + (x - F) = x + (T - F)" using False assms by simp
  finally show ?thesis using False by simp
qed

lemma nth_map_range:
  assumes "F \<le> T" "T \<le> length xs" "x < length xs"
  shows "(take F xs @ map g (take (T - F) (drop F xs)) @ drop T xs) ! x
         = (if F \<le> x \<and> x < T then g (xs ! x) else xs ! x)"
proof -
  have l1: "length (take F xs) = F" using assms by simp
  have l2: "length (map g (take (T - F) (drop F xs))) = T - F" using assms by simp
  consider "x < F" | "F \<le> x" "x < T" | "T \<le> x" by linarith
  then show ?thesis
  proof cases
    case 1
    with assms show ?thesis by (simp add: nth_append)
  next
    case 2
    then have "(take F xs @ map g (take (T - F) (drop F xs)) @ drop T xs) ! x
        = map g (take (T - F) (drop F xs)) ! (x - F)"
      using l1 l2 by (simp add: nth_append del: length_take length_map)
    also have "\<dots> = g (xs ! x)" using 2 assms by simp
    finally show ?thesis using 2 by simp
  next
    case 3
    then have "\<not> x < F" "\<not> x - F < T - F" using assms by simp_all
    then have "(take F xs @ map g (take (T - F) (drop F xs)) @ drop T xs) ! x
        = drop T xs ! (x - F - (T - F))"
      using l1 l2 by (simp add: nth_append del: length_take length_map)
    also have "x - F - (T - F) = x - T" using 3 assms by simp
    also have "drop T xs ! (x - T) = xs ! x" using 3 assms by simp
    finally show ?thesis using 3 by simp
  qed
qed

lemma covered_step:
  assumes fit: "spans_fit tr (s # ss)" and cov: "covered tr (s # ss)"
    and ps: "process_suggestion sch a tr s = Inr tr'"
  shows "covered tr' ss"
proof -
  let ?M = "mapping_map (tr_mapping tr)"
  let ?F = "?M (mr_from s)" and ?T = "?M (mr_to s)"
  let ?pt = "ptypes (tr_doc tr)"
  from process_suggestion_effect[OF fit, of sch a] ps
  have FT: "?F \<le> ?T" and T: "?T \<le> frag_size (tr_doc tr)"
    and eff: "(if mark_type (mr_mark s) = markToDelete a
          then scells (tr_doc tr') = take ?F (scells (tr_doc tr)) @ drop ?T (scells (tr_doc tr))
             \<and> (\<forall>p. mapping_map (tr_mapping tr') p = delmap ?F (?T - ?F) (?M p))
          else scells (tr_doc tr') =
                 take ?F (scells (tr_doc tr))
                 @ map (\<lambda>c. (fst c, filter (\<lambda>k. fst k \<noteq> mark_type (mr_mark s)) (snd c)))
                     (take (?T - ?F) (drop ?F (scells (tr_doc tr))))
                 @ drop ?T (scells (tr_doc tr))
             \<and> (\<forall>p. mapping_map (tr_mapping tr') p = ?M p))"
    by (auto split: if_splits)
  show ?thesis
  proof (cases "mark_type (mr_mark s) = markToDelete a")
    case True
    with eff have sc: "scells (tr_doc tr') = take ?F (scells (tr_doc tr)) @ drop ?T (scells (tr_doc tr))"
      and mp: "\<And>p. mapping_map (tr_mapping tr') p = delmap ?F (?T - ?F) (?M p)" by simp_all
    from ptoks_take_drop[OF sc] have pt': "ptypes (tr_doc tr') = take ?F ?pt @ drop ?T ?pt" by simp
    have "length (scells (tr_doc tr')) = length (take ?F (scells (tr_doc tr)) @ drop ?T (scells (tr_doc tr)))"
      by (simp only: sc)
    moreover have "min (frag_size (tr_doc tr)) ?F = ?F" using FT T by simp
    ultimately have "frag_size (tr_doc tr') = ?F + (frag_size (tr_doc tr) - ?T)" by simp
    then have sz: "frag_size (tr_doc tr') = frag_size (tr_doc tr) - (?T - ?F)"
      using FT T by linarith
    show ?thesis
      unfolding covered_def
    proof (intro allI impI ballI)
      fix x' ty
      assume x': "x' < frag_size (tr_doc tr')" and ty: "ty \<in> set (ptypes (tr_doc tr') ! x')"
        and sg: "ty = ''suggestion_insert'' \<or> ty = ''suggestion_delete''"
      define x where "x = (if x' < ?F then x' else x' + (?T - ?F))"
      have nth: "ptypes (tr_doc tr') ! x' = ?pt ! x"
        unfolding pt' x_def using nth_take_drop[of ?F ?T ?pt x'] FT T x' sz by simp
      have xlt: "x < frag_size (tr_doc tr)" using x' sz FT T by (auto simp: x_def)
      from ty nth have ty0: "ty \<in> set (?pt ! x)" by simp
      from cov[unfolded covered_def, rule_format, OF xlt ty0 sg]
      obtain s1 where s1: "s1 \<in> set (s # ss)"
        "mark_type (mr_mark s1) = ty" "?M (mr_from s1) \<le> x" "x < ?M (mr_to s1)"
        by blast
      have out: "x < ?F \<or> ?T \<le> x" using FT by (auto simp: x_def)
      with s1 have "s1 \<noteq> s" by auto
      with s1 have mem: "s1 \<in> set ss" by simp
      have "delmap ?F (?T - ?F) (?M (mr_from s1)) \<le> x' \<and> x' < delmap ?F (?T - ?F) (?M (mr_to s1))"
      proof (cases "x' < ?F")
        case True
        then have "x = x'" by (simp add: x_def)
        with delmap_cover_lt[OF FT s1(3,4)] True show ?thesis by simp
      next
        case False
        then have xe: "x = x' + (?T - ?F)" by (simp add: x_def)
        then have "?T \<le> x" using False FT by simp
        from delmap_cover_ge[OF FT s1(3,4) this] xe show ?thesis by simp
      qed
      with mem s1(2) show "\<exists>s\<in>set ss. mark_type (mr_mark s) = ty
           \<and> mapping_map (tr_mapping tr') (mr_from s) \<le> x'
           \<and> x' < mapping_map (tr_mapping tr') (mr_to s)"
        by (auto simp: mp)
    qed
  next
    case False
    with eff have sc: "scells (tr_doc tr') =
                 take ?F (scells (tr_doc tr))
                 @ map (\<lambda>c. (fst c, filter (\<lambda>k. fst k \<noteq> mark_type (mr_mark s)) (snd c)))
                     (take (?T - ?F) (drop ?F (scells (tr_doc tr))))
                 @ drop ?T (scells (tr_doc tr))"
      and mp: "\<And>p. mapping_map (tr_mapping tr') p = ?M p" by simp_all
    from ptoks_filter_range[OF sc FT]
    have pt': "ptypes (tr_doc tr') = take ?F ?pt
         @ map (filter (\<lambda>x. x \<noteq> mark_type (mr_mark s))) (take (?T - ?F) (drop ?F ?pt)) @ drop ?T ?pt"
      by simp
    from ptoks_filter_range[OF sc FT] have "length (ptoks (tr_doc tr')) = length (ptoks (tr_doc tr))"
      by simp
    then have sz: "frag_size (tr_doc tr') = frag_size (tr_doc tr)"
      by (simp add: ptoks_def)
    show ?thesis
      unfolding covered_def
    proof (intro allI impI ballI)
      fix x ty
      assume x: "x < frag_size (tr_doc tr')" and ty: "ty \<in> set (ptypes (tr_doc tr') ! x)"
        and sg: "ty = ''suggestion_insert'' \<or> ty = ''suggestion_delete''"
      have nth: "ptypes (tr_doc tr') ! x =
          (if ?F \<le> x \<and> x < ?T then filter (\<lambda>x. x \<noteq> mark_type (mr_mark s)) (?pt ! x) else ?pt ! x)"
        unfolding pt' using nth_map_range[of ?F ?T ?pt x] FT T x sz by simp
      from ty nth have ty0: "ty \<in> set (?pt ! x)" by (auto split: if_splits)
      from x sz have xlt: "x < frag_size (tr_doc tr)" by simp
      from cov[unfolded covered_def, rule_format, OF xlt ty0 sg]
      obtain s1 where s1: "s1 \<in> set (s # ss)"
        "mark_type (mr_mark s1) = ty" "?M (mr_from s1) \<le> x" "x < ?M (mr_to s1)"
        by blast
      have "s1 \<noteq> s"
      proof
        assume "s1 = s"
        with s1 have "?F \<le> x \<and> x < ?T" "mark_type (mr_mark s) = ty" by simp_all
        with ty nth show False by simp
      qed
      with s1 have "s1 \<in> set ss" by simp
      with s1 show "\<exists>s\<in>set ss. mark_type (mr_mark s) = ty
           \<and> mapping_map (tr_mapping tr') (mr_from s) \<le> x
           \<and> x < mapping_map (tr_mapping tr') (mr_to s)"
        by (auto simp: mp)
    qed
  qed
qed

lemma covered_all:
  assumes "spans_fit tr ss" "covered tr ss" "process_suggestions sch a tr ss = Inr tr'"
  shows "covered tr' []"
  using assms
proof (induction ss arbitrary: tr)
  case Nil
  then show ?case by simp
next
  case (Cons s ss)
  from process_suggestion_effect[OF Cons.prems(1), of sch a] obtain tr1 where
    p: "process_suggestion sch a tr s = Inr tr1" and f: "spans_fit tr1 ss" by blast
  from covered_step[OF Cons.prems(1,2) p] have c: "covered tr1 ss" .
  from Cons.prems(3) p have "process_suggestions sch a tr1 ss = Inr tr'" by simp
  from Cons.IH[OF f c this] show ?case .
qed

lemma ptypes_nth: "x < frag_size d \<Longrightarrow> ptypes d ! x = map mark_type (snd (cells d ! x))"
  by (simp add: ptypes_def)

lemma initial_covered:
  assumes "findSuggestionsInRange state 0 (frag_size (es_doc state)) = Inr rs"
    and "tr_doc tr = es_doc state" "tr_steps tr = []"
  shows "covered tr rs"
  unfolding covered_def
proof (intro allI impI ballI)
  fix x ty
  let ?d = "es_doc state"
  let ?vs = "overlapping ?d 0 (frag_size ?d)"
  assume x: "x < frag_size (tr_doc tr)" and ty: "ty \<in> set (ptypes (tr_doc tr) ! x)"
    and sg: "ty = ''suggestion_insert'' \<or> ty = ''suggestion_delete''"
  from x assms(2) have xd: "x < frag_size ?d" by simp
  from node_at_position[OF xd, of 0] obtain n pos where
    np: "(n, pos) \<in> set (node_positions 0 ?d)" "pos \<le> x" "x < pos + node_size n"
        "snd (cells ?d ! x) = node_marks n" by auto
  from ty assms(2) xd np(4) obtain m where m: "m \<in> set (node_marks n)" "mark_type m = ty"
    by (auto simp: ptypes_nth)
  from sg m have sm: "is_suggestion_mark m" by (auto simp: is_suggestion_mark_def)
  have ov: "(n, pos) \<in> set ?vs"
    using np xd by (simp add: overlapping_def)
  let ?C = "{v \<in> set ?vs. carries m v}"
  have inC: "(n, pos) \<in> ?C" using ov m by (simp add: carries_def)
  then have ne: "?C \<noteq> {}" by blast
  have fin: "finite ?C" by simp
  define f where "f = Min (snd ` ?C)"
  define t where "t = Max ((\<lambda>v. snd v + node_size (fst v)) ` ?C)"
  have ent: "(m, f, t) \<in> set (collect_ranges ?vs)"
    using sm ne by (simp add: collect_ranges_entry f_def t_def)
  have i1: "snd (n, pos) \<in> snd ` ?C" using inC by (rule imageI)
  have "f \<le> snd (n, pos)" unfolding f_def using i1 fin by (intro Min_le) simp_all
  then have fle: "f \<le> x" using np by simp
  have i2: "(\<lambda>v. snd v + node_size (fst v)) (n, pos) \<in> (\<lambda>v. snd v + node_size (fst v)) ` ?C"
    using inC by (rule imageI)
  have "(\<lambda>v. snd v + node_size (fst v)) (n, pos) \<le> t"
    unfolding t_def using i2 fin by (intro Max_ge) simp_all
  then have tgt: "x < t" using np by simp
  from findSuggestionsInRange_Inr[OF assms(1)] ent
  have "to_marked_range (m, f, t) \<in> set rs" by auto
  then show "\<exists>s\<in>set rs. mark_type (mr_mark s) = ty
       \<and> mapping_map (tr_mapping tr) (mr_from s) \<le> x \<and> x < mapping_map (tr_mapping tr) (mr_to s)"
    using m fle tgt assms(3)
    by (intro bexI[of _ "to_marked_range (m, f, t)"]) (simp_all add: to_marked_range_def tr_mapping_def)
qed

lemma nonempty_node_size: "nonempty_node n \<Longrightarrow> 0 < node_size n"
  by (cases n) simp_all

lemma no_suggestion_types_no_spans:
  assumes ne: "list_all nonempty_node d"
    and none: "\<forall>x < frag_size d. \<forall>ty \<in> set (ptypes d ! x).
                 \<not> (ty = ''suggestion_insert'' \<or> ty = ''suggestion_delete'')"
  shows "collect_ranges (overlapping d from to) = []"
proof (rule ccontr)
  assume "collect_ranges (overlapping d from to) \<noteq> []"
  then obtain e where e: "e \<in> set (collect_ranges (overlapping d from to))"
    by (cases "collect_ranges (overlapping d from to)") auto
  obtain m f t where mft: "e = (m, f, t)" by (cases e) auto
  from e mft have sm: "is_suggestion_mark m"
    and c: "{v \<in> set (overlapping d from to). carries m v} \<noteq> {}"
    by (simp_all add: collect_ranges_entry)
  from c obtain n pos where v: "(n, pos) \<in> set (node_positions 0 d)" "m \<in> set (node_marks n)"
    by (auto simp: overlapping_def carries_def)
  have "n \<in> set d" using v(1)
  proof -
    have "\<And>q. (n, pos) \<in> set (node_positions q d) \<Longrightarrow> n \<in> set d"
      by (induction d) auto
    with v(1) show ?thesis by blast
  qed
  with ne have "0 < node_size n" by (auto simp: list_all_iff nonempty_node_size)
  from position_in_node[OF v(1) this]
  have p: "pos < frag_size d" "snd (cells d ! pos) = node_marks n" by simp_all
  then have "mark_type m \<in> set (ptypes d ! pos)" using v(2) by (simp add: ptypes_nth)
  with none p(1) sm show False by (auto simp: is_suggestion_mark_def)
qed

lemma no_pending_iff:
  "no_pending d \<longleftrightarrow>
     (\<forall>x < frag_size d. \<forall>ty \<in> set (ptypes d ! x).
        \<not> (ty = ''suggestion_insert'' \<or> ty = ''suggestion_delete''))"
proof -
  have "no_pending d \<longleftrightarrow> (\<forall>tys \<in> set (ptypes d). \<forall>ty \<in> set tys.
           \<not> (ty = ''suggestion_insert'' \<or> ty = ''suggestion_delete''))"
    by (simp add: no_pending_def list_all_iff list_ex_iff)
  also have "\<dots> \<longleftrightarrow> (\<forall>x < length (ptypes d). \<forall>ty \<in> set (ptypes d ! x).
           \<not> (ty = ''suggestion_insert'' \<or> ty = ''suggestion_delete''))"
    by (simp only: all_set_conv_all_nth)
  finally show ?thesis by simp
qed

text \<open>
  C7. \<^verbatim>\<open>acceptAllSuggestions\<close> on a document without empty text nodes never fails. It
  dispatches a transaction (and returns \<open>True\<close>) exactly when the document holds a
  pending mark; in either case the document it leaves (the dispatched transaction applied,
  or the unchanged document when nothing was dispatched) holds no pending mark at any
  position, and a second run on that state returns \<open>False\<close> and dispatches nothing, so
  the document after two runs is the document after one.
\<close>

theorem acceptAll_twice_is_acceptAll_once:
  assumes "list_all nonempty_node (es_doc st)"
  shows "\<exists>b r. acceptAllSuggestions st True = Inr (b, r)
       \<and> b = (r \<noteq> None)
       \<and> (r = None) = no_pending (es_doc st)
       \<and> no_pending (es_doc (case r of None \<Rightarrow> st | Some tr \<Rightarrow> state_apply st tr))
       \<and> es_doc (case r of None \<Rightarrow> st | Some tr \<Rightarrow> state_apply st tr)
           = (case r of None \<Rightarrow> es_doc st | Some tr \<Rightarrow> tr_doc tr)
       \<and> acceptAllSuggestions (case r of None \<Rightarrow> st | Some tr \<Rightarrow> state_apply st tr) True
           = Inr (False, None)"
proof -
  let ?d = "es_doc st"
  let ?n = "frag_size ?d"
  let ?tr0 = "(state_tr st)\<lparr>tr_meta := Some skip_meta\<rparr>"
  have "findSuggestionsInRange st 0 ?n
          = Inr (map to_marked_range (collect_ranges (overlapping ?d 0 ?n)))"
    by (simp add: findSuggestionsInRange_def nodes_between_ok)
  then obtain rs where rs: "findSuggestionsInRange st 0 ?n = Inr rs" by blast
  have cov: "covered ?tr0 rs"
    by (rule initial_covered[OF rs]) (simp_all add: state_tr_def)
  have d0: "tr_doc ?tr0 = ?d" by (simp add: state_tr_def)
  show ?thesis
  proof (cases "rs = []")
    case True
    with rs have first: "acceptAllSuggestions st True = Inr (False, None)"
      by (simp add: acceptAllSuggestions_def acceptSuggestionsInRange_def
          processSuggestionsInRange_def)
    from cov True have np: "no_pending ?d"
      unfolding no_pending_iff covered_def d0 by simp
    from first np show ?thesis by (intro exI[of _ False] exI[of _ None]) simp
  next
    case False
    have fit: "spans_fit ?tr0 rs"
      by (rule located_spans_fit[OF rs]) (simp_all add: state_tr_def)
    from process_suggestions_fit[of ?tr0 rs "[]" "es_schema st" Accept] fit obtain tr where
      tr: "process_suggestions (es_schema st) Accept ?tr0 rs = Inr tr" by auto
    have first: "acceptAllSuggestions st True = Inr (True, Some tr)"
      using rs False tr
      by (simp add: acceptAllSuggestions_def acceptSuggestionsInRange_def
          processSuggestionsInRange_def)
    have ne: "list_all nonempty_node (tr_doc tr)"
      by (rule process_suggestions_nonempty[OF tr]) (simp add: state_tr_def assms)
    from covered_all[OF fit cov tr]
    have none: "\<forall>x < frag_size (tr_doc tr). \<forall>ty \<in> set (ptypes (tr_doc tr) ! x).
                 \<not> (ty = ''suggestion_insert'' \<or> ty = ''suggestion_delete'')"
      by (auto simp: covered_def)
    then have np1: "no_pending (tr_doc tr)" by (simp only: no_pending_iff)
    have pend: "\<not> no_pending ?d"
    proof
      assume "no_pending ?d"
      then have "\<forall>x < frag_size ?d. \<forall>ty \<in> set (ptypes ?d ! x).
                 \<not> (ty = ''suggestion_insert'' \<or> ty = ''suggestion_delete'')"
        by (simp only: no_pending_iff)
      from no_suggestion_types_no_spans[OF assms this, of 0 ?n] rs False
      show False by (simp add: findSuggestionsInRange_def nodes_between_ok)
    qed
    let ?st1 = "state_apply st tr"
    have d1: "es_doc ?st1 = tr_doc tr" by (simp add: state_apply_def)
    have "findSuggestionsInRange ?st1 0 (frag_size (es_doc ?st1)) = Inr []"
      using no_suggestion_types_no_spans[OF ne none, of 0 "frag_size (tr_doc tr)"]
      by (simp add: findSuggestionsInRange_def nodes_between_ok d1)
    then have second: "acceptAllSuggestions ?st1 True = Inr (False, None)"
      by (simp add: acceptAllSuggestions_def acceptSuggestionsInRange_def
          processSuggestionsInRange_def)
    from first second np1 pend d1 show ?thesis
      by (intro exI[of _ True] exI[of _ "Some tr"]) simp
  qed
qed

theorem acceptAll_twice_is_acceptAll_once_witness:
  "list_all nonempty_node (es_doc (example_state doc_overlap))
   \<and> (case acceptAllSuggestions (example_state doc_overlap) True of
         Inr (b, Some tr) \<Rightarrow>
           b \<and> tr_doc tr = [Text [] (asc ''ad'')]
           \<and> acceptAllSuggestions (state_apply (example_state doc_overlap) tr) True = Inr (False, None)
       | _ \<Rightarrow> False)"
proof -
  have a: "list_all nonempty_node (es_doc (example_state doc_overlap))"
    by (simp add: example_state_def doc_overlap_def)
  have b: "(case acceptAllSuggestions (example_state doc_overlap) True of
         Inr (b, Some tr) \<Rightarrow>
           b \<and> tr_doc tr = [Text [] (asc ''ad'')]
           \<and> acceptAllSuggestions (state_apply (example_state doc_overlap) tr) True = Inr (False, None)
       | _ \<Rightarrow> False)"
    by (simp add: eval_defs doc_overlap_def Let_def)
  from acceptAll_twice_is_acceptAll_once[OF a] a b show ?thesis by blast
qed

lemma same_set_refl: "same_set a a"
  by (simp add: same_set_iff)

lemma same_set_sym: "same_set a b \<Longrightarrow> same_set b a"
  by (simp add: same_set_iff)

lemma same_set_trans: "same_set a b \<Longrightarrow> same_set b c \<Longrightarrow> same_set a c"
  by (simp add: same_set_iff)

lemma joinable_iff:
  "joinable a b \<longleftrightarrow> (\<exists>ms t ms' t'. a = Text ms t \<and> b = Text ms' t' \<and> same_set ms ms')"
  by (cases a; cases b) auto

lemma no_adjacent_joinable_append1:
  "no_adjacent_joinable (ns @ [a]) \<Longrightarrow> \<not> joinable a b \<Longrightarrow> no_adjacent_joinable (ns @ [a, b])"
proof (induction ns rule: no_adjacent_joinable.induct)
  case (1 x y rest)
  then show ?case by (cases rest) auto
qed simp_all

lemma no_adjacent_joinable_butlast:
  "no_adjacent_joinable (ns @ [a]) \<Longrightarrow> no_adjacent_joinable ns"
proof (induction ns rule: no_adjacent_joinable.induct)
  case (1 x y rest)
  then show ?case by (cases rest) auto
qed simp_all

lemma no_adjacent_joinable_replace_last:
  "no_adjacent_joinable (ns @ [Text ms1 t1]) \<Longrightarrow> same_set ms2 ms1 \<Longrightarrow>
   no_adjacent_joinable (ns @ [Text ms2 t])"
proof (induction ns rule: no_adjacent_joinable.induct)
  case (1 x y rest)
  show ?case
  proof (cases rest)
    case Nil
    with 1 show ?thesis
      by (auto simp: joinable_iff dest: same_set_trans same_set_sym)
  next
    case (Cons z zs)
    with 1 show ?thesis by auto
  qed
qed (auto simp: joinable_iff dest: same_set_trans same_set_sym)

lemma add_node_snoc:
  "add_node (ns @ [a]) c =
     (case (a, c) of
        (Text ms1 t1, Text ms2 t2) \<Rightarrow>
          if same_set ms2 ms1 then ns @ [Text ms2 (t1 @ t2)] else ns @ [a, c]
      | _ \<Rightarrow> ns @ [a, c])"
proof (induction ns)
  case Nil
  then show ?case by (cases a; cases c) auto
next
  case (Cons n ns)
  then show ?case by (cases "ns @ [a]") (auto split: node.splits)
qed

lemma wf_add_node:
  assumes "wf_frag acc" "nonempty_node c"
  shows "wf_frag (add_node acc c)"
proof (cases acc rule: rev_cases)
  case Nil
  with assms show ?thesis by (simp add: wf_frag_def)
next
  case (snoc ns a)
  show ?thesis
  proof (cases "joinable a c")
    case True
    then obtain ms1 t1 ms2 t2 where ac: "a = Text ms1 t1" "c = Text ms2 t2" "same_set ms1 ms2"
      by (auto simp: joinable_iff)
    then have eq: "add_node acc c = ns @ [Text ms2 (t1 @ t2)]"
      using snoc by (simp add: add_node_snoc same_set_iff)
    have a1: "no_adjacent_joinable (ns @ [Text ms1 t1])"
      using assms(1) unfolding snoc ac(1) wf_frag_def by (rule conjunct2)
    have a2: "same_set ms2 ms1" using ac(3) by (rule same_set_sym)
    have "no_adjacent_joinable (ns @ [Text ms2 (t1 @ t2)])"
      by (rule no_adjacent_joinable_replace_last[OF a1 a2])
    moreover have "list_all nonempty_node (ns @ [Text ms2 (t1 @ t2)])"
      using assms snoc ac by (simp add: wf_frag_def)
    ultimately show ?thesis by (simp add: eq wf_frag_def)
  next
    case False
    then have eq: "add_node acc c = ns @ [a, c]"
      using snoc by (cases a; cases c) (auto simp: add_node_snoc same_set_iff)
    have "no_adjacent_joinable (ns @ [a, c])"
      using assms(1) snoc False by (intro no_adjacent_joinable_append1) (simp_all add: wf_frag_def)
    moreover have "list_all nonempty_node (ns @ [a, c])"
      using assms snoc by (simp add: wf_frag_def)
    ultimately show ?thesis by (simp add: eq wf_frag_def)
  qed
qed

lemma wf_foldl_add_node:
  "wf_frag acc \<Longrightarrow> list_all nonempty_node ns \<Longrightarrow> wf_frag (foldl add_node acc ns)"
  by (induction ns arbitrary: acc) (simp_all add: wf_add_node)

lemma wf_Nil [simp]: "wf_frag []"
  by (simp add: wf_frag_def)

text \<open>Normalised inline content is determined, up to \<^verbatim>\<open>Node.eq\<close>, by what stands at each position.\<close>

lemma scells_Leaf: "scells [Leaf ms n] = [(LF n, map mark_key ms)]"
  by (simp add: scells_def)

lemma wf_Cons: "wf_frag (n # ns) \<Longrightarrow> wf_frag ns \<and> nonempty_node n"
  by (cases ns) (simp_all add: wf_frag_def)

lemma scells_hd_nonempty:
  "nonempty_node n \<Longrightarrow> scells (n # ns) \<noteq> []
     \<and> hd (scells (n # ns)) = (case n of Text ms t \<Rightarrow> (CU (hd t), map mark_key ms)
                                | Leaf ms nm \<Rightarrow> (LF nm, map mark_key ms))"
  by (cases n) (auto simp: scells_def hd_map hd_append)

lemma takeWhile_first_text:
  assumes "wf_frag (Text ms t # ns)"
  shows "takeWhile (in_run ms) (scells (Text ms t # ns)) = scells [Text ms t]"
proof -
  have all: "\<forall>c \<in> set (scells [Text ms t]). in_run ms c"
    by (auto simp: scells_Text in_run_def)
  have rest: "takeWhile (in_run ms) (scells ns) = []"
  proof (cases ns)
    case Nil
    then show ?thesis by simp
  next
    case (Cons n ns')
    from assms Cons have nj: "\<not> joinable (Text ms t) n" and ne: "nonempty_node n"
      by (simp_all add: wf_frag_def)
    from scells_hd_nonempty[OF ne, of ns'] have
      h: "scells (n # ns') \<noteq> []"
         "hd (scells (n # ns')) = (case n of Text ms t \<Rightarrow> (CU (hd t), map mark_key ms)
                                | Leaf ms nm \<Rightarrow> (LF nm, map mark_key ms))"
      by simp_all
    have "\<not> in_run ms (hd (scells (n # ns')))"
      using nj h(2) by (cases n) (auto simp: in_run_def same_set_iff)
    with h(1) show ?thesis
      unfolding Cons by (cases "scells (n # ns')") auto
  qed
  have "scells (Text ms t # ns) = scells [Text ms t] @ scells ns"
    by (rule scells_Cons)
  then show ?thesis using all rest by (simp add: takeWhile_append2)
qed

lemma doc_eq_of_scells:
  assumes "wf_frag a" "wf_frag b" "scells a = scells b"
  shows "doc_eq a b"
  using assms
proof (induction a arbitrary: b)
  case Nil
  then have "frag_size b = 0" using frag_size_scells[of "[]" b] by simp
  have "b = []"
  proof (cases b)
    case Nil then show ?thesis .
  next
    case (Cons n ns)
    with Nil(2) have "nonempty_node n" by (simp add: wf_Cons)
    then have "0 < node_size n" by (rule nonempty_node_size)
    with \<open>frag_size b = 0\<close> Cons show ?thesis by simp
  qed
  then show ?case by (simp add: doc_eq_def)
next
  case (Cons n a)
  from Cons.prems(1) have wa: "wf_frag a" and nn: "nonempty_node n" by (simp_all add: wf_Cons)
  have "0 < node_size n" using nn by (rule nonempty_node_size)
  then have "frag_size b \<noteq> 0" using frag_size_scells[OF Cons.prems(3)] by simp
  then obtain n' b' where b: "b = n' # b'" by (cases b) auto
  from Cons.prems(2) b have wb: "wf_frag b'" and nn': "nonempty_node n'" by (simp_all add: wf_Cons)
  have hd_eq: "hd (scells (n # a)) = hd (scells (n' # b'))" using Cons.prems(3) b by simp
  show ?case
  proof (cases n)
    case (Leaf ms nm)
    with hd_eq scells_hd_nonempty[OF nn, of a] scells_hd_nonempty[OF nn', of b']
    obtain ms' where n': "n' = Leaf ms' nm" "map mark_key ms = map mark_key ms'"
      by (cases n') auto
    have "scells a = scells b'"
      using Cons.prems(3) b Leaf n' scells_Cons[of n a] scells_Cons[of n' b']
      by (simp add: scells_Leaf)
    from Cons.IH[OF wa wb this] Leaf n' b show ?thesis
      by (simp add: doc_eq_def same_set_iff)
  next
    case (Text ms t)
    with hd_eq scells_hd_nonempty[OF nn, of a] scells_hd_nonempty[OF nn', of b']
    obtain ms' t' where n': "n' = Text ms' t'" "map mark_key ms = map mark_key ms'"
      by (cases n') auto
    have run: "in_run ms = in_run ms'" using n'(2) by (auto simp: in_run_def fun_eq_iff)
    have "scells [Text ms t] = takeWhile (in_run ms) (scells (n # a))"
      using takeWhile_first_text[of ms t a] Cons.prems(1) Text by simp
    also have "\<dots> = takeWhile (in_run ms') (scells (n' # b'))"
      using Cons.prems(3) b run by simp
    also have "\<dots> = scells [Text ms' t']"
      using takeWhile_first_text[of ms' t' b'] Cons.prems(2) b n' by simp
    finally have first: "scells [Text ms t] = scells [Text ms' t']" .
    then have "map fst (scells [Text ms t]) = map fst (scells [Text ms' t'])" by simp
    then have "map CU t = map CU t'" by (simp add: scells_Text comp_def)
    then have tt: "t = t'" by (simp add: inj_map_eq_map inj_def)
    have "scells a = scells b'"
      using Cons.prems(3) b Text n' first scells_Cons[of n a] scells_Cons[of n' b'] by simp
    from Cons.IH[OF wa wb this] Text n' b tt show ?thesis
      by (simp add: doc_eq_def same_set_iff)
  qed
qed

lemma add_to_set_loop_adds:
  assumes "\<forall>x \<in> set rest. \<not> mark_eq m x \<and> \<not> mark_excludes sch (mark_type x) (mark_type m)"
    and "placed \<longrightarrow> m \<in> set copy"
  shows "\<exists>c. add_to_set_loop sch m rest copy placed = Some c \<and> m \<in> set c
           \<and> set c \<subseteq> insert m (set copy \<union> set rest)"
  using assms
proof (induction rest arbitrary: copy placed)
  case Nil
  then show ?case by auto
next
  case (Cons x rest)
  from Cons.prems(1) have x: "\<not> mark_eq m x" "\<not> mark_excludes sch (mark_type x) (mark_type m)"
    and r: "\<forall>x \<in> set rest. \<not> mark_eq m x \<and> \<not> mark_excludes sch (mark_type x) (mark_type m)"
    by simp_all
  consider (drop) "mark_excludes sch (mark_type m) (mark_type x)"
    | (place) "\<not> mark_excludes sch (mark_type m) (mark_type x)"
        "\<not> placed \<and> mark_rank sch (mark_type x) > mark_rank sch (mark_type m)"
    | (keep) "\<not> mark_excludes sch (mark_type m) (mark_type x)"
        "\<not> (\<not> placed \<and> mark_rank sch (mark_type x) > mark_rank sch (mark_type m))"
    by blast
  then show ?case
  proof cases
    case drop
    from Cons.IH[OF r Cons.prems(2)] obtain c where
      "add_to_set_loop sch m rest copy placed = Some c" "m \<in> set c"
      "set c \<subseteq> insert m (set copy \<union> set rest)" by blast
    with x drop show ?thesis by auto
  next
    case place
    from Cons.IH[OF r, of True "copy @ [m, x]"] obtain c where
      "add_to_set_loop sch m rest (copy @ [m, x]) True = Some c" "m \<in> set c"
      "set c \<subseteq> insert m (set (copy @ [m, x]) \<union> set rest)" by auto
    with x place show ?thesis by auto
  next
    case keep
    from Cons.IH[OF r, of placed "copy @ [x]"] Cons.prems(2) obtain c where
      "add_to_set_loop sch m rest (copy @ [x]) placed = Some c" "m \<in> set c"
      "set c \<subseteq> insert m (set (copy @ [x]) \<union> set rest)" by auto
    with x keep show ?thesis by auto
  qed
qed

lemma add_to_set_adds:
  assumes "\<forall>x \<in> set ms. mark_type x \<noteq> mark_type m
              \<and> \<not> mark_excludes sch (mark_type x) (mark_type m)"
  shows "m \<in> set (add_to_set sch m ms) \<and> set (add_to_set sch m ms) \<subseteq> insert m (set ms)"
proof -
  have "\<forall>x \<in> set ms. \<not> mark_eq m x \<and> \<not> mark_excludes sch (mark_type x) (mark_type m)"
    using assms by (auto simp: mark_eq_def)
  from add_to_set_loop_adds[OF this, of False "[]"] show ?thesis
    by (auto simp: add_to_set_def)
qed

text \<open>How a position splits the content.\<close>

lemma frag_split_shape:
  assumes "frag_split d p = (a, mid, b)" "p \<le> frag_size d"
  shows "d = a @ (case mid of None \<Rightarrow> [] | Some (c, off) \<Rightarrow> [c]) @ b
       \<and> frag_size a + (case mid of None \<Rightarrow> 0 | Some (c, off) \<Rightarrow> off) = p"
  using assms
proof (induction d p arbitrary: a mid b rule: frag_split.induct)
  case (1 pos)
  then show ?case by simp
next
  case (2 c cs pos)
  show ?case
  proof (cases "pos = 0")
    case True
    with 2 show ?thesis by auto
  next
    case False
    show ?thesis
    proof (cases "pos < node_size c")
      case True
      with False 2 show ?thesis by auto
    next
      case ge: False
      obtain a' m' b' where s: "frag_split cs (pos - node_size c) = (a', m', b')"
        by (cases "frag_split cs (pos - node_size c)") auto
      have "pos - node_size c \<le> frag_size cs" using 2(3) ge by simp
      from 2(1)[OF False ge s this] 2(2) s False ge show ?thesis by auto
    qed
  qed
qed

lemma cells_last_node:
  assumes "list_all nonempty_node F" "F \<noteq> []"
  shows "cells F \<noteq> [] \<and> snd (last (cells F)) = node_marks (last F)"
proof -
  obtain G n where F: "F = G @ [n]" using assms(2) by (cases F rule: rev_cases) auto
  with assms(1) have "nonempty_node n" by simp
  then have "node_cells n \<noteq> [] \<and> snd (last (node_cells n)) = node_marks n"
    by (cases n) (auto simp: last_map)
  then show ?thesis by (simp add: F)
qed

lemma cells_first_node:
  assumes "list_all nonempty_node F" "F \<noteq> []"
  shows "cells F \<noteq> [] \<and> snd (hd (cells F)) = node_marks (hd F)"
proof -
  obtain n G where F: "F = n # G" using assms(2) by (cases F) auto
  with assms(1) have "nonempty_node n" by simp
  then have "node_cells n \<noteq> [] \<and> snd (hd (node_cells n)) = node_marks n"
    by (cases n) (auto simp: hd_map)
  then show ?thesis by (simp add: F)
qed

lemma filter_subset_marks: "set (drop_non_inclusive sch ms other) \<subseteq> set ms"
  by (auto simp: drop_non_inclusive_def)

text \<open>The marks active at a position are marks of the position before or after it.\<close>

lemma marks_at_adjacent:
  assumes ne: "list_all nonempty_node d" and p: "p \<le> frag_size d"
  shows "\<exists>ms. marks_at sch d p = Inr ms
      \<and> (\<forall>m \<in> set ms. (0 < p \<and> m \<in> set (snd (cells d ! (p - 1))))
                        \<or> (p < frag_size d \<and> m \<in> set (snd (cells d ! p))))"
proof (cases "frag_size d = 0")
  case True
  with p show ?thesis by (simp add: marks_at_def)
next
  case False
  obtain a mid b where s: "frag_split d p = (a, mid, b)" by (cases "frag_split d p") auto
  from frag_split_shape[OF s p] have
    d: "d = a @ (case mid of None \<Rightarrow> [] | Some (c, off) \<Rightarrow> [c]) @ b"
    and sz: "frag_size a + (case mid of None \<Rightarrow> 0 | Some (c, off) \<Rightarrow> off) = p" by simp_all
  from frag_split_parts[OF s ne] have
    nea: "list_all nonempty_node a" and neb: "list_all nonempty_node b"
    and off: "(case mid of None \<Rightarrow> True | Some (c, off) \<Rightarrow> 0 < off \<and> off < node_size c)"
    by simp_all
  show ?thesis
  proof (cases mid)
    case (Some co)
    obtain c off where co: "co = (c, off)" by (cases co) auto
    from d Some co have d': "d = a @ [c] @ b" by simp
    from sz Some co have pa: "p = frag_size a + off" by simp
    from off Some co have o: "0 < off" "off < node_size c" by simp_all
    have "cells d ! p = node_cells c ! off"
      unfolding d' pa using o by (simp add: nth_append)
    moreover have "snd (node_cells c ! off) = node_marks c" using o by (cases c) auto
    moreover have "p < frag_size d" unfolding d' pa using o by simp
    moreover have "marks_at sch d p = Inr (node_marks c)"
      using p False s Some co by (simp add: marks_at_def)
    ultimately show ?thesis by auto
  next
    case None
    from d None have d': "d = a @ b" by simp
    from sz None have pa: "p = frag_size a" by simp
    show ?thesis
    proof (cases "a = []")
      case True
      with False d' obtain n ns where b: "b = n # ns" by (cases b) auto
      have m: "marks_at sch d p = Inr (drop_non_inclusive sch (node_marks n) None)"
        using p False s None True b by (simp add: marks_at_def)
      from cells_first_node[OF neb] b have "cells b \<noteq> []" "snd (hd (cells b)) = node_marks n"
        by simp_all
      then have "snd (cells d ! p) = node_marks n" "p < frag_size d"
        using True d' pa False by (simp_all add: hd_conv_nth)
      with m filter_subset_marks[of sch "node_marks n" None] show ?thesis by auto
    next
      case na: False
      have m: "marks_at sch d p = Inr (drop_non_inclusive sch (node_marks (last a))
                             (case b of [] \<Rightarrow> None | n # ns \<Rightarrow> Some n))"
        using p False s None na by (simp add: marks_at_def)
      from cells_last_node[OF nea na] have c: "cells a \<noteq> []" "snd (last (cells a)) = node_marks (last a)"
        by simp_all
      then have p0: "0 < p" using pa length_cells[of a] by (cases "cells a") auto
      moreover have "cells d ! (p - 1) = last (cells a)"
        using c(1) pa d' p0 by (simp add: nth_append last_conv_nth)
      ultimately show ?thesis
        using m c(2) filter_subset_marks[of sch "node_marks (last a)"] by auto
    qed
  qed
qed

lemma append_join_no_join:
  "a = [] \<or> b = [] \<or> \<not> joinable (last a) (hd b) \<Longrightarrow> append_join a b = a @ b"
  by (induction a b rule: append_join.induct) auto

lemma frag_size_0_nonempty: "list_all nonempty_node a \<Longrightarrow> frag_size a = 0 \<Longrightarrow> a = []"
  by (cases a) (auto dest: nonempty_node_size)

lemma frag_append_no_join:
  assumes "list_all nonempty_node a" "list_all nonempty_node b"
    and "a = [] \<or> b = [] \<or> \<not> joinable (last a) (hd b)"
  shows "frag_append a b = a @ b"
  using assms
  by (auto simp: frag_append_def append_join_no_join dest: frag_size_0_nonempty)

lemma marks_add_node:
  "x \<in> set (add_node acc c) \<Longrightarrow> node_marks x \<in> node_marks ` set acc \<or> node_marks x = node_marks c"
  by (induction acc c rule: add_node.induct) (auto split: if_splits)

lemma marks_foldl_add_node:
  "x \<in> set (foldl add_node acc ns) \<Longrightarrow>
   node_marks x \<in> node_marks ` set acc \<or> node_marks x \<in> node_marks ` set ns"
proof (induction ns arbitrary: acc)
  case Nil
  then show ?case by simp
next
  case (Cons n ns)
  from Cons.prems have "x \<in> set (foldl add_node (add_node acc n) ns)" by simp
  from Cons.IH[OF this] show ?case
  proof
    assume "node_marks x \<in> node_marks ` set (add_node acc n)"
    then obtain y where y: "y \<in> set (add_node acc n)" "node_marks x = node_marks y" by auto
    from marks_add_node[OF y(1)] y(2) show ?thesis by auto
  next
    assume "node_marks x \<in> node_marks ` set ns"
    then show ?thesis by auto
  qed
qed

lemma marks_from_array: "x \<in> set (from_array ns) \<Longrightarrow> node_marks x \<in> node_marks ` set ns"
  using marks_foldl_add_node[of x "[]" ns] by (simp add: from_array_def)

lemma node_has_cell:
  "x \<in> set F \<Longrightarrow> nonempty_node x \<Longrightarrow> \<exists>c \<in> set (cells F). snd c = node_marks x"
proof (induction F)
  case Nil
  then show ?case by simp
next
  case (Cons n F)
  show ?case
  proof (cases "x = n")
    case True
    with Cons.prems(2) have "\<exists>c \<in> set (node_cells n). snd c = node_marks n"
      by (cases n) (auto simp: neq_Nil_conv)
    with True show ?thesis by auto
  next
    case False
    with Cons show ?thesis by auto
  qed
qed

lemma in_take_drop:
  assumes "c \<in> set (take n (drop p xs))"
  shows "\<exists>i. p \<le> i \<and> i < p + n \<and> i < length xs \<and> c = xs ! i"
proof -
  from assms obtain j where j: "j < length (take n (drop p xs))" "c = take n (drop p xs) ! j"
    by (auto simp: in_set_conv_nth)
  then have jn: "j < n" "p + j < length xs" by auto
  then have "p \<le> length xs" by simp
  with j jn have "c = xs ! (p + j)" by simp
  moreover note jn
  ultimately show ?thesis by (intro exI[of _ "p + j"]) simp
qed

lemma node_positions_append:
  "node_positions q (A @ B) = node_positions q A @ node_positions (q + frag_size A) B"
  by (induction A arbitrary: q) (simp_all add: add.assoc)

lemma node_positions_mem: "(n, pos) \<in> set (node_positions q S) \<Longrightarrow> n \<in> set S"
  by (induction S arbitrary: q) auto

lemma overlapping_middle:
  assumes "list_all nonempty_node S"
  shows "overlapping (A @ S @ B) (frag_size A) (frag_size A + frag_size S)
         = node_positions (frag_size A) S"
proof -
  let ?P = "\<lambda>v. snd v < frag_size A + frag_size S \<and> frag_size A < snd v + node_size (fst v)"
  have a: "filter ?P (node_positions 0 A) = []"
  proof -
    have "\<forall>v \<in> set (node_positions 0 A). \<not> ?P v"
    proof
      fix v assume "v \<in> set (node_positions 0 A)"
      then have "(fst v, snd v) \<in> set (node_positions 0 A)" by simp
      from node_positions_bounds[OF this] show "\<not> ?P v" by simp
    qed
    then show ?thesis by (simp add: filter_empty_conv)
  qed
  have s: "filter ?P (node_positions (frag_size A) S) = node_positions (frag_size A) S"
  proof -
    have "\<forall>v \<in> set (node_positions (frag_size A) S). ?P v"
    proof
      fix v assume v: "v \<in> set (node_positions (frag_size A) S)"
      then have m: "(fst v, snd v) \<in> set (node_positions (frag_size A) S)" by simp
      from node_positions_mem[OF m] assms have "0 < node_size (fst v)"
        by (auto simp: list_all_iff nonempty_node_size)
      with node_positions_bounds[OF m] show "?P v" by simp
    qed
    then show ?thesis by (simp add: filter_id_conv)
  qed
  have b: "filter ?P (node_positions (frag_size A + frag_size S) B) = []"
  proof -
    have "\<forall>v \<in> set (node_positions (frag_size A + frag_size S) B). \<not> ?P v"
    proof
      fix v assume "v \<in> set (node_positions (frag_size A + frag_size S) B)"
      then have "(fst v, snd v) \<in> set (node_positions (frag_size A + frag_size S) B)" by simp
      from node_positions_bounds[OF this] show "\<not> ?P v" by simp
    qed
    then show ?thesis by (simp add: filter_empty_conv)
  qed
  show ?thesis
    unfolding overlapping_def using a s b by (simp add: node_positions_append)
qed

lemma Min_starts:
  "S \<noteq> [] \<Longrightarrow> Min (snd ` set (node_positions q S)) = q"
proof -
  assume "S \<noteq> []"
  then obtain c cs where S: "S = c # cs" by (cases S) auto
  have "\<forall>v \<in> set (node_positions q S). q \<le> snd v"
  proof
    fix v assume "v \<in> set (node_positions q S)"
    then have "(fst v, snd v) \<in> set (node_positions q S)" by simp
    from node_positions_bounds[OF this] show "q \<le> snd v" by simp
  qed
  moreover have "q \<in> snd ` set (node_positions q S)" using S by force
  ultimately show ?thesis by (intro Min_eqI) auto
qed

lemma Max_ends:
  "S \<noteq> [] \<Longrightarrow> Max ((\<lambda>v. snd v + node_size (fst v)) ` set (node_positions q S)) = q + frag_size S"
proof -
  assume ne: "S \<noteq> []"
  have le: "\<forall>v \<in> set (node_positions q S). snd v + node_size (fst v) \<le> q + frag_size S"
  proof
    fix v assume "v \<in> set (node_positions q S)"
    then have "(fst v, snd v) \<in> set (node_positions q S)" by simp
    from node_positions_bounds[OF this] show "snd v + node_size (fst v) \<le> q + frag_size S" by simp
  qed
  obtain G n where S: "S = G @ [n]" using ne by (cases S rule: rev_cases) auto
  have "(n, q + frag_size G) \<in> set (node_positions q S)"
    by (simp add: S node_positions_append)
  then have "(\<lambda>v. snd v + node_size (fst v)) (n, q + frag_size G)
      \<in> (\<lambda>v. snd v + node_size (fst v)) ` set (node_positions q S)" by (rule imageI)
  then have "q + frag_size S \<in> (\<lambda>v. snd v + node_size (fst v)) ` set (node_positions q S)"
    by (simp add: S add.assoc)
  with le show ?thesis by (intro Max_eqI) auto
qed

lemma distinct_singleton: "distinct xs \<Longrightarrow> set xs = {x} \<Longrightarrow> xs = [x]"
proof (cases xs)
  case Nil
  assume "set xs = {x}" with Nil show ?thesis by simp
next
  case (Cons a as)
  assume d: "distinct xs" and s: "set xs = {x}"
  from s Cons have a: "a = x" by auto
  have "as = []"
  proof (cases as)
    case Nil then show ?thesis .
  next
    case (Cons b bs)
    with s \<open>xs = a # as\<close> have "b = x" by auto
    with a d \<open>xs = a # as\<close> Cons show ?thesis by simp
  qed
  with a Cons show ?thesis by simp
qed

lemma collect_ranges_single:
  assumes ne: "vs \<noteq> []" and sg: "is_suggestion_mark M"
    and all: "\<forall>v \<in> set vs. M \<in> set (node_marks (fst v))
                \<and> (\<forall>x \<in> set (node_marks (fst v)). is_suggestion_mark x \<longrightarrow> x = M)"
  shows "collect_ranges vs =
           [(M, Min (snd ` set vs), Max ((\<lambda>v. snd v + node_size (fst v)) ` set vs))]"
proof -
  let ?f = "Min (snd ` set vs)" and ?t = "Max ((\<lambda>v. snd v + node_size (fst v)) ` set vs)"
  have CM: "{v \<in> set vs. carries M v} = set vs" using all by (auto simp: carries_def)
  have memM: "(M, ?f, ?t) \<in> set (collect_ranges vs)"
    using ne sg by (simp add: collect_ranges_entry CM)
  have only: "\<forall>e \<in> set (collect_ranges vs). e = (M, ?f, ?t)"
  proof
    fix e assume e: "e \<in> set (collect_ranges vs)"
    obtain m f t where mft: "e = (m, f, t)" by (cases e) auto
    from e mft have sm: "is_suggestion_mark m" and c: "{v \<in> set vs. carries m v} \<noteq> {}"
      and f: "f = Min (snd ` {v \<in> set vs. carries m v})"
      and t: "t = Max ((\<lambda>v. snd v + node_size (fst v)) ` {v \<in> set vs. carries m v})"
      by (simp_all add: collect_ranges_entry)
    from c obtain v where "v \<in> set vs" "m \<in> set (node_marks (fst v))" by (auto simp: carries_def)
    with all sm have "m = M" by blast
    with f t CM mft show "e = (M, ?f, ?t)" by simp
  qed
  have st: "set (collect_ranges vs) = {(M, ?f, ?t)}"
  proof (rule equalityI)
    show "set (collect_ranges vs) \<subseteq> {(M, ?f, ?t)}" using only by blast
    show "{(M, ?f, ?t)} \<subseteq> set (collect_ranges vs)" using memM by blast
  qed
  have di: "distinct (collect_ranges vs)"
    using distinct_collect_ranges[of vs] by (simp add: distinct_map)
  from distinct_singleton[OF di st] show ?thesis .
qed

lemma node_size_set_marks [simp]: "node_size (set_marks ms n) = node_size n"
  by (cases n) simp_all

lemma node_marks_set_marks [simp]: "node_marks (set_marks ms n) = ms"
  by (cases n) simp_all

lemma frag_size_map_set_marks [simp]:
  "frag_size (map (\<lambda>n. set_marks (g n) n) sl) = frag_size sl"
  by (induction sl) simp_all

lemma same_set_types: "same_set a b \<Longrightarrow> map mark_type a = map mark_type b"
proof -
  assume "same_set a b"
  then have "map mark_key a = map mark_key b" by (simp add: same_set_iff)
  then have "map fst (map mark_key a) = map fst (map mark_key b)" by simp
  then show ?thesis by (simp add: mark_key_def comp_def)
qed

lemma joinable_types:
  "joinable a b \<Longrightarrow> map mark_type (node_marks a) = map mark_type (node_marks b)"
  by (auto simp: joinable_iff dest: same_set_types)

lemma frag_size_cut_before: "p \<le> frag_size d \<Longrightarrow> frag_size (cut_before d p) = p"
proof -
  assume p: "p \<le> frag_size d"
  have "length (scells (cut_before d p)) = length (take p (scells d))"
    by (simp only: scells_cut_before)
  with p show ?thesis by simp
qed

lemma frag_size_frag_cut:
  "p + n \<le> frag_size d \<Longrightarrow> frag_size (frag_cut d p (p + n)) = n"
proof -
  assume p: "p + n \<le> frag_size d"
  have "length (scells (frag_cut d p (p + n))) = length (take (p + n - p) (drop p (scells d)))"
    by (simp only: scells_frag_cut)
  with p show ?thesis by simp
qed

text \<open>
  Adding a mark over a range whose nodes accept it, next to nodes that do not carry its
  type: the range becomes a run of nodes of its own, every one carrying the mark object.
\<close>

lemma mark_range_shape:
  assumes ne: "list_all nonempty_node d1" and pn: "p + n \<le> frag_size d1" and n: "0 < n"
    and inner: "\<And>i x. p \<le> i \<Longrightarrow> i < p + n \<Longrightarrow> x \<in> set (snd (cells d1 ! i)) \<Longrightarrow>
                   mark_type x \<noteq> mark_type M
                   \<and> \<not> mark_excludes sch (mark_type x) (mark_type M)
                   \<and> \<not> is_suggestion_mark x"
    and left: "0 < p \<Longrightarrow> mark_type M \<notin> set (ptypes d1 ! (p - 1))"
    and right: "p + n < frag_size d1 \<Longrightarrow> mark_type M \<notin> set (ptypes d1 ! (p + n))"
    and r: "map_marks_range (add_to_set sch M) d1 p (p + n) = Inr d2"
  shows "\<exists>A S B. d2 = A @ S @ B \<and> frag_size A = p \<and> frag_size S = n \<and> S \<noteq> []
           \<and> list_all nonempty_node A \<and> list_all nonempty_node S \<and> list_all nonempty_node B
           \<and> (\<forall>x \<in> set S. M \<in> set (node_marks x)
                 \<and> (\<forall>y \<in> set (node_marks x). is_suggestion_mark y \<longrightarrow> y = M))
           \<and> scells A = take p (scells d1) \<and> scells B = drop (p + n) (scells d1)"
proof -
  let ?g = "add_to_set sch M"
  define sl where "sl = frag_cut d1 p (p + n)"
  define S where "S = from_array (map (\<lambda>n. set_marks (?g (node_marks n)) n) sl)"
  define A where "A = cut_before d1 p"
  define B where "B = cut_after d1 (p + n)"
  from pn have ds: "doc_slice d1 p (p + n) = Inr sl" by (simp add: doc_slice_def sl_def)
  have szsl: "frag_size sl = n" unfolding sl_def by (rule frag_size_frag_cut[OF pn])
  have "frag_size S = frag_size (map (\<lambda>n. set_marks (?g (node_marks n)) n) sl)"
    unfolding S_def by (rule frag_size_scells[OF scells_from_array])
  with szsl have szS: "frag_size S = n" by simp
  with n have Sne: "S \<noteq> []" by auto
  from r ds have "doc_replace d1 p (p + n) S = Inr d2"
    by (simp add: map_marks_range_def S_def)
  with pn szS n have d2: "d2 = frag_append (frag_append A S) B"
    by (simp add: doc_replace_def A_def B_def)
  have neA: "list_all nonempty_node A" unfolding A_def by (rule nonempty_cut_before[OF ne])
  have neB: "list_all nonempty_node B" unfolding B_def by (rule nonempty_cut_after[OF ne])
  have nesl: "list_all nonempty_node sl" unfolding sl_def by (rule nonempty_frag_cut[OF ne])
  then have "list_all nonempty_node (map (\<lambda>n. set_marks (?g (node_marks n)) n) sl)"
    by (simp add: list_all_iff)
  then have neS: "list_all nonempty_node S" unfolding S_def by (rule nonempty_from_array)
  have marks: "M \<in> set (node_marks x) \<and> (\<forall>y \<in> set (node_marks x). is_suggestion_mark y \<longrightarrow> y = M)"
    if x: "x \<in> set S" for x
  proof -
    from marks_from_array[OF x[unfolded S_def]]
    obtain y where y: "y \<in> set sl" "node_marks x = ?g (node_marks y)" by auto
    from nesl y(1) have "nonempty_node y" by (simp add: list_all_iff)
    from node_has_cell[OF y(1) this] obtain c where c: "c \<in> set (cells sl)" "snd c = node_marks y"
      by blast
    from c(1) have "c \<in> set (take n (drop p (cells d1)))"
      by (simp add: sl_def cells_frag_cut)
    from in_take_drop[OF this] obtain i where i: "p \<le> i" "i < p + n" "c = cells d1 ! i" by blast
    have props: "mark_type z \<noteq> mark_type M \<and> \<not> mark_excludes sch (mark_type z) (mark_type M)
                 \<and> \<not> is_suggestion_mark z" if "z \<in> set (node_marks y)" for z
      using inner[OF i(1,2), of z] that c(2) i(3) by simp
    then have "\<forall>z \<in> set (node_marks y). mark_type z \<noteq> mark_type M
                  \<and> \<not> mark_excludes sch (mark_type z) (mark_type M)" by blast
    from add_to_set_adds[OF this] have a: "M \<in> set (?g (node_marks y))"
      "set (?g (node_marks y)) \<subseteq> insert M (set (node_marks y))" by simp_all
    show ?thesis
    proof (intro conjI ballI impI)
      show "M \<in> set (node_marks x)" using a(1) y(2) by simp
    next
      fix z assume z: "z \<in> set (node_marks x)" "is_suggestion_mark z"
      with a(2) y(2) have "z = M \<or> z \<in> set (node_marks y)" by auto
      with props z(2) show "z = M" by blast
    qed
  qed
  have tyS: "mark_type M \<in> set (map mark_type (node_marks x))" if "x \<in> set S" for x
    using marks[OF that] by auto
  have seam1: "A = [] \<or> S = [] \<or> \<not> joinable (last A) (hd S)"
  proof (cases "A = []")
    case True
    then show ?thesis by simp
  next
    case False
    from cells_last_node[OF neA False]
    have cA: "cells A \<noteq> []" "snd (last (cells A)) = node_marks (last A)" by simp_all
    have cA2: "cells A = take p (cells d1)" by (simp add: A_def cells_cut_before)
    with cA(1) have p0: "0 < p" by (cases p) auto
    have len: "length (cells d1) = frag_size d1" by (simp add: cells_def frag_size_def)
        (induction d1, simp_all add: length_concat)
    have "min (frag_size d1) p = p" using pn by simp
    then have lp: "length (take p (cells d1)) = p" using len by simp
    from cA(1) cA2 have "take p (cells d1) \<noteq> []" by simp
    then have "last (take p (cells d1)) = take p (cells d1) ! (length (take p (cells d1)) - 1)"
      by (rule last_conv_nth)
    also have "\<dots> = take p (cells d1) ! (p - 1)" by (simp only: lp)
    also have "\<dots> = cells d1 ! (p - 1)" using p0 by simp
    finally have "last (take p (cells d1)) = cells d1 ! (p - 1)" .
    with cA cA2 have "node_marks (last A) = snd (cells d1 ! (p - 1))" by simp
    moreover have "ptypes d1 ! (p - 1) = map mark_type (snd (cells d1 ! (p - 1)))"
      using p0 pn by (intro ptypes_nth) simp
    ultimately have ty: "map mark_type (node_marks (last A)) = ptypes d1 ! (p - 1)" by simp
    have "\<not> joinable (last A) (hd S)"
    proof
      assume "joinable (last A) (hd S)"
      from joinable_types[OF this] tyS[of "hd S"] Sne ty
      have "mark_type M \<in> set (ptypes d1 ! (p - 1))" by simp
      with left[OF p0] show False by simp
    qed
    then show ?thesis by simp
  qed
  from frag_append_no_join[OF neA neS seam1] have AS: "frag_append A S = A @ S" .
  have neAS: "list_all nonempty_node (A @ S)" using neA neS by simp
  have seam2: "A @ S = [] \<or> B = [] \<or> \<not> joinable (last (A @ S)) (hd B)"
  proof (cases "B = []")
    case True
    then show ?thesis by simp
  next
    case False
    from cells_first_node[OF neB False]
    have cB: "cells B \<noteq> []" "snd (hd (cells B)) = node_marks (hd B)" by simp_all
    have cB2: "cells B = drop (p + n) (cells d1)" by (simp add: B_def cells_cut_after)
    have len: "length (cells d1) = frag_size d1" by (simp add: cells_def frag_size_def)
        (induction d1, simp_all add: length_concat)
    from cB(1) cB2 len have lt: "p + n < frag_size d1" by simp
    then have "hd (drop (p + n) (cells d1)) = cells d1 ! (p + n)"
      using len by (simp add: hd_drop_conv_nth)
    with cB cB2 have "node_marks (hd B) = snd (cells d1 ! (p + n))" by simp
    moreover have "ptypes d1 ! (p + n) = map mark_type (snd (cells d1 ! (p + n)))"
      using lt by (intro ptypes_nth)
    ultimately have ty: "map mark_type (node_marks (hd B)) = ptypes d1 ! (p + n)" by simp
    have "\<not> joinable (last (A @ S)) (hd B)"
    proof
      assume "joinable (last (A @ S)) (hd B)"
      with Sne have "joinable (last S) (hd B)" by simp
      from joinable_types[OF this] tyS[of "last S"] Sne ty
      have "mark_type M \<in> set (ptypes d1 ! (p + n))" by simp
      with right[OF lt] show False by simp
    qed
    then show ?thesis by simp
  qed
  from frag_append_no_join[OF neAS neB seam2] AS d2 have d2': "d2 = A @ S @ B" by simp
  have szA: "frag_size A = p" unfolding A_def using pn by (intro frag_size_cut_before) simp
  have scA: "scells A = take p (scells d1)" by (simp add: A_def scells_cut_before)
  have scB: "scells B = drop (p + n) (scells d1)" by (simp add: B_def scells_cut_after)
  from d2' szA szS Sne neA neS neB marks scA scB show ?thesis by blast
qed

text \<open>
  The span locator on a document whose range is a run of nodes that all carry one
  suggestion mark object and no other suggestion mark.
\<close>

lemma located_single:
  assumes d2: "es_doc st2 = A @ S @ B" and szA: "frag_size A = p" and szS: "frag_size S = n"
    and Sne: "S \<noteq> []" and neS: "list_all nonempty_node S" and sg: "is_suggestion_mark M"
    and marks: "\<forall>x \<in> set S. M \<in> set (node_marks x)
                 \<and> (\<forall>y \<in> set (node_marks x). is_suggestion_mark y \<longrightarrow> y = M)"
  shows "findSuggestionsInRange st2 p (p + n) = Inr [\<lparr>mr_mark = M, mr_from = p, mr_to = p + n\<rparr>]"
proof -
  let ?vs = "node_positions p S"
  have le: "p + n \<le> frag_size (es_doc st2)" using d2 szA szS by simp
  have ov: "overlapping (es_doc st2) p (p + n) = ?vs"
    using overlapping_middle[OF neS, of A B] d2 szA szS by simp
  have vne: "?vs \<noteq> []" using Sne by (cases S) simp_all
  have all: "\<forall>v \<in> set ?vs. M \<in> set (node_marks (fst v))
                \<and> (\<forall>x \<in> set (node_marks (fst v)). is_suggestion_mark x \<longrightarrow> x = M)"
  proof
    fix v assume v: "v \<in> set ?vs"
    then have "(fst v, snd v) \<in> set ?vs" by simp
    from node_positions_mem[OF this] have "fst v \<in> set S" .
    with marks show "M \<in> set (node_marks (fst v))
                \<and> (\<forall>x \<in> set (node_marks (fst v)). is_suggestion_mark x \<longrightarrow> x = M)" by blast
  qed
  from collect_ranges_single[OF vne sg all] Min_starts[OF Sne, of p] Max_ends[OF Sne, of p] szS
  have "collect_ranges ?vs = [(M, p, p + n)]" by simp
  with nodes_between_ok[OF le, of p] ov show ?thesis
    by (simp add: findSuggestionsInRange_def to_marked_range_def)
qed

lemma tr_delete_wf:
  assumes "list_all nonempty_node (tr_doc tr)" "f < t" "tr_delete sch tr f t = Inr tr'"
  shows "wf_frag (tr_doc tr')"
proof -
  let ?d = "tr_doc tr"
  from assms(2,3) have "tr_doc tr' = foldl add_node [] (cut_before ?d f @ cut_after ?d t)"
    by (auto simp: tr_delete_def tr_replace_def tr_step_def doc_replace_def
             split: if_splits sum.splits)
  moreover have "list_all nonempty_node (cut_before ?d f @ cut_after ?d t)"
    using nonempty_cut_before[OF assms(1), of f] nonempty_cut_after[OF assms(1), of t] by simp
  then have "wf_frag (foldl add_node [] (cut_before ?d f @ cut_after ?d t))"
    by (rule wf_foldl_add_node[OF wf_Nil])
  ultimately show ?thesis by (simp only:)
qed

text \<open>Rejecting a range that holds exactly one pending insertion removes its content.\<close>

lemma reject_single:
  assumes d2: "es_doc st2 = A @ S @ B" and szA: "frag_size A = p" and szS: "frag_size S = n"
    and Sne: "S \<noteq> []" and neA: "list_all nonempty_node A" and neS: "list_all nonempty_node S"
    and neB: "list_all nonempty_node B"
    and ty: "mark_type M = ''suggestion_insert''"
    and marks: "\<forall>x \<in> set S. M \<in> set (node_marks x)
                 \<and> (\<forall>y \<in> set (node_marks x). is_suggestion_mark y \<longrightarrow> y = M)"
  shows "\<exists>tr3. rejectSuggestionsInRange p (p + n) st2 True = Inr (True, Some tr3)
           \<and> scells (tr_doc tr3) = scells A @ scells B \<and> wf_frag (tr_doc tr3)"
proof -
  from ty have sg: "is_suggestion_mark M" by (simp add: is_suggestion_mark_def)
  note loc = located_single[OF d2 szA szS Sne neS sg marks]
  let ?tr0 = "(state_tr st2)\<lparr>tr_meta := Some skip_meta\<rparr>"
  have doc0: "tr_doc ?tr0 = A @ S @ B" using d2 by (simp add: state_tr_def)
  have map0: "tr_mapping ?tr0 = []" by (simp add: state_tr_def tr_mapping_def)
  from neS Sne have "0 < frag_size S" by (cases S) (auto dest: nonempty_node_size)
  with szS have n: "0 < n" by simp
  have le: "p + n \<le> frag_size (tr_doc ?tr0)" using doc0 szA szS by simp
  from tr_delete_cases[of p "p + n" ?tr0 "es_schema st2"] le
  obtain tr3 where tr3: "tr_delete (es_schema st2) ?tr0 p (p + n) = Inr tr3"
    "scells (tr_doc tr3) = take p (scells (tr_doc ?tr0)) @ drop (p + n) (scells (tr_doc ?tr0))"
    by auto
  have ne0: "list_all nonempty_node (tr_doc ?tr0)" using doc0 neA neS neB by simp
  from tr_delete_wf[OF ne0 _ tr3(1)] n have wf: "wf_frag (tr_doc tr3)" by simp
  have lA: "length (scells A) = p" and lS: "length (scells S) = n" using szA szS by simp_all
  have sc: "scells (tr_doc tr3) = scells A @ scells B"
    unfolding tr3(2) doc0 using lA lS by simp
  have ps: "process_suggestion (es_schema st2) Reject ?tr0 \<lparr>mr_mark = M, mr_from = p, mr_to = p + n\<rparr>
            = Inr tr3"
    using tr3(1) ty map0 by (simp add: process_suggestion_def markToDelete_def)
  have "rejectSuggestionsInRange p (p + n) st2 True = Inr (True, Some tr3)"
    using loc ps by (simp add: rejectSuggestionsInRange_def processSuggestionsInRange_def)
  with sc wf show ?thesis by blast
qed

text \<open>
  Typing \<open>s\<close> at \<open>p\<close> under tracking, at a place where no pending mark is active: the
  text is inserted with the marks active there, and the transformer adds one new
  \<^verbatim>\<open>suggestion_insert\<close> mark over it.
\<close>

lemma typing_effect:
  assumes ne: "list_all nonempty_node (es_doc st)" and p: "p \<le> frag_size (es_doc st)"
    and s: "s \<noteq> []" and on: "inSuggestionMode (es_plugin st)"
    and clean: "\<forall>i. (i = p \<or> Suc i = p) \<and> i < frag_size (es_doc st) \<longrightarrow>
                  (\<forall>ty \<in> set (ptypes (es_doc st) ! i).
                     ty \<noteq> ''suggestion_insert'' \<and> ty \<noteq> ''suggestion_delete''
                     \<and> \<not> mark_excludes (es_schema st) ty ''suggestion_insert'')"
  shows "\<exists>ms T d1 st2. marks_at (es_schema st) (es_doc st) p = Inr ms
      \<and> (\<forall>m \<in> set ms. mark_type m \<noteq> ''suggestion_insert'' \<and> mark_type m \<noteq> ''suggestion_delete''
            \<and> \<not> mark_excludes (es_schema st) (mark_type m) ''suggestion_insert'')
      \<and> insert_text st p s = Inr T
      \<and> doc_replace (es_doc st) p p [Text ms s] = Inr d1
      \<and> apply_transaction fnsp fresh st T = Inr st2
      \<and> es_schema st2 = es_schema st \<and> es_plugin st2 = es_plugin st
      \<and> map_marks_range
           (add_to_set (es_schema st)
              (create_mark ''suggestion_insert'' fresh (ps_username (es_plugin st))
                 (obj_spread (ps_data (es_plugin st)) [])))
           d1 p (p + length s) = Inr (es_doc st2)"
proof -
  let ?d = "es_doc st" and ?sch = "es_schema st"
  let ?M = "create_mark ''suggestion_insert'' fresh (ps_username (es_plugin st))
              (obj_spread (ps_data (es_plugin st)) [])"
  from marks_at_adjacent[OF ne p, of ?sch] obtain ms where
    ma: "marks_at ?sch ?d p = Inr ms"
    and adj: "\<forall>m \<in> set ms. (0 < p \<and> m \<in> set (snd (cells ?d ! (p - 1))))
                        \<or> (p < frag_size ?d \<and> m \<in> set (snd (cells ?d ! p)))"
    by blast
  have props: "mark_type m \<noteq> ''suggestion_insert'' \<and> mark_type m \<noteq> ''suggestion_delete''
            \<and> \<not> mark_excludes ?sch (mark_type m) ''suggestion_insert''" if m: "m \<in> set ms" for m
  proof -
    from adj[rule_format, OF m] consider "0 < p" "m \<in> set (snd (cells ?d ! (p - 1)))"
      | "p < frag_size ?d" "m \<in> set (snd (cells ?d ! p))" by auto
    then show ?thesis
    proof cases
      case 1
      then have i: "Suc (p - 1) = p" "p - 1 < frag_size ?d" using p by simp_all
      from 1(2) have "mark_type m \<in> set (ptypes ?d ! (p - 1))"
        using ptypes_nth[OF i(2)] by simp
      with clean[rule_format, of "p - 1" "mark_type m"] i show ?thesis by blast
    next
      case 2
      from 2(2) have "mark_type m \<in> set (ptypes ?d ! p)"
        using ptypes_nth[OF 2(1)] by simp
      with clean[rule_format, of p "mark_type m"] 2(1) show ?thesis by blast
    qed
  qed
  then have "\<not> (\<exists>x. x \<in> set ms \<and> is_suggestion_mark x)"
    by (auto simp: is_suggestion_mark_def)
  then have fn: "find is_suggestion_mark ms = None" by (rule find_None_iff[THEN iffD2])
  from doc_replace_ok[OF p p] obtain d1 where dr: "doc_replace ?d p p [Text ms s] = Inr d1"
    by blast
  from frag_size_doc_replace[OF dr] have sz1: "frag_size d1 = frag_size ?d + length s" by simp
  with p have le1: "p + length s \<le> frag_size d1" by simp
  from map_marks_range_ok[of p d1 "p + length s" "add_to_set ?sch ?M"] le1
  obtain d2 where mm: "map_marks_range (add_to_set ?sch ?M) d1 p (p + length s) = Inr d2"
    by auto
  define T where "T = (state_tr st)\<lparr>tr_doc := d1, tr_steps := [ReplaceStep p p [Text ms s]]\<rparr>"
  have it: "insert_text st p s = Inr T"
    using ma dr s by (simp add: insert_text_def tr_replace_def tr_step_def T_def state_tr_def)
  define st1 where "st1 = state_apply st T"
  have st1: "es_doc st1 = d1" "es_schema st1 = ?sch" "es_plugin st1 = es_plugin st"
    by (simp_all add: st1_def state_apply_def T_def plugin_apply_def state_tr_def)
  have ds: "doc_slice ?d p p = Inr []" using p by (simp add: doc_slice_def frag_cut_def)
  define tr2 where
    "tr2 = (state_tr st1)\<lparr>tr_meta := Some skip_meta, tr_doc := d2,
                           tr_steps := [AddMarkStep p (p + length s) ?M]\<rparr>"
  define ts0 where "ts0 = init_tstate fresh st st1"
  define ts1 where "ts1 = begin_step ts0 ?d (ReplaceStep p p [Text ms s])"
  have ts1: "tr_doc (ts_tr ts1) = d1" "ts_fresh ts1 = fresh" "tr_steps (ts_tr ts1) = []"
    by (simp_all add: ts1_def begin_step_def ts0_def init_tstate_def state_tr_def st1)
  have am: "tr_addMark ?sch (ts_tr ts1) p (p + length s) ?M = Inr tr2"
    using mm le1 s ts1
    by (simp add: tr_addMark_def tr_step_def tr2_def ts1_def begin_step_def ts0_def
                  init_tstate_def state_tr_def st1)
  have mi: "mark_inserted ?sch (ps_username (es_plugin st)) (obj_spread (ps_data (es_plugin st)) [])
              p 0 (length s) ts1
            = Inr (ts1\<lparr>ts_tr := tr2, ts_changed := True, ts_fresh := fresh + 1\<rparr>)"
    using am s ts1(2) by (simp add: mark_inserted_def)
  have idoc: "intermediate_doc ?sch ts0 = Inr ?d"
    by (simp add: intermediate_doc_def ts0_def init_tstate_def)
  have tstep: "transform_step ?sch fnsp (es_selection_from st1) (ps_username (es_plugin st))
                 (obj_spread (ps_data (es_plugin st)) []) [ReplaceStep p p [Text ms s]] ts0
                 (ReplaceStep p p [Text ms s])
               = Inr (ts1\<lparr>ts_tr := tr2, ts_changed := True, ts_fresh := fresh + 1\<rparr>)"
    using idoc ds ma fn mi
    by (simp add: transform_step_def ts1_def[symmetric])
  have tt: "transform_transactions ?sch fnsp (es_selection_from st1) (es_plugin st) [T] ts0
            = Inr (ts1\<lparr>ts_tr := tr2, ts_changed := True, ts_fresh := fresh + 1\<rparr>)"
    using tstep on
    by (simp add: transform_transaction_def T_def state_tr_def meta_inSuggestionMode_def
                  meta_skipSuggestionOperation_def meta_username_def meta_data_def)
  have at: "appendTransaction fnsp fresh [T] st st1 = Inr (Some tr2)"
    using tt by (simp add: appendTransaction_def st1 ts0_def[symmetric])
  define st2 where "st2 = state_apply st1 tr2"
  have ap: "apply_transaction fnsp fresh st T = Inr st2"
    using at by (simp add: apply_transaction_def st1_def[symmetric] st2_def)
  have st2: "es_doc st2 = d2" "es_schema st2 = ?sch" "es_plugin st2 = es_plugin st"
    by (simp_all add: st2_def state_apply_def tr2_def st1 plugin_apply_def state_tr_def)
  from ma props it dr ap st2 mm show ?thesis by blast
qed

lemma ptypes_doc_replace_text:
  assumes dr: "doc_replace d p p [Text ms s] = Inr d1" and p: "p \<le> frag_size d"
  shows "ptypes d1 = take p (ptypes d) @ map (\<lambda>c. map mark_type ms) s @ drop p (ptypes d)"
proof -
  have k: "map fst (map mark_key ms) = map mark_type ms" by (simp add: mark_key_def comp_def)
  from scells_doc_replace[OF dr]
  have "scells d1 = take p (scells d) @ scells [Text ms s] @ drop p (scells d)" .
  then have "ptypes d1 = map (\<lambda>c. map fst (snd c)) (take p (scells d) @ scells [Text ms s] @ drop p (scells d))"
    by (simp only: ptypes_scells)
  also have "\<dots> = take p (ptypes d) @ map (\<lambda>c. map fst (snd c)) (scells [Text ms s]) @ drop p (ptypes d)"
    by (simp add: ptypes_scells take_map drop_map)
  also have "map (\<lambda>c. map fst (snd c)) (scells [Text ms s]) = map (\<lambda>c. map mark_type ms) s"
    by (simp add: scells_Text comp_def mark_key_def)
  finally show ?thesis .
qed

lemma typing_shape:
  assumes ne: "list_all nonempty_node (es_doc st)" and p: "p \<le> frag_size (es_doc st)"
    and s: "s \<noteq> []" and on: "inSuggestionMode (es_plugin st)"
    and clean: "\<forall>i. (i = p \<or> Suc i = p) \<and> i < frag_size (es_doc st) \<longrightarrow>
                  (\<forall>ty \<in> set (ptypes (es_doc st) ! i).
                     ty \<noteq> ''suggestion_insert'' \<and> ty \<noteq> ''suggestion_delete''
                     \<and> \<not> mark_excludes (es_schema st) ty ''suggestion_insert'')"
  shows "\<exists>T st2 A S B. insert_text st p s = Inr T
           \<and> apply_transaction fnsp fresh st T = Inr st2
           \<and> es_schema st2 = es_schema st \<and> es_plugin st2 = es_plugin st
           \<and> es_doc st2 = A @ S @ B \<and> frag_size A = p \<and> frag_size S = length s \<and> S \<noteq> []
           \<and> list_all nonempty_node A \<and> list_all nonempty_node S \<and> list_all nonempty_node B
           \<and> (\<forall>x \<in> set S.
                  create_mark ''suggestion_insert'' fresh (ps_username (es_plugin st))
                    (obj_spread (ps_data (es_plugin st)) []) \<in> set (node_marks x)
                  \<and> (\<forall>y \<in> set (node_marks x). is_suggestion_mark y \<longrightarrow>
                        y = create_mark ''suggestion_insert'' fresh (ps_username (es_plugin st))
                              (obj_spread (ps_data (es_plugin st)) [])))
           \<and> scells A = take p (scells (es_doc st)) \<and> scells B = drop p (scells (es_doc st))
           \<and> ptoks S = map CU s"
proof -
  let ?d = "es_doc st" and ?sch = "es_schema st" and ?n = "length s"
  let ?M = "create_mark ''suggestion_insert'' fresh (ps_username (es_plugin st))
              (obj_spread (ps_data (es_plugin st)) [])"
  from typing_effect[OF ne p s on clean, of fnsp fresh]
  obtain ms T d1 st2 where
    ma: "marks_at ?sch ?d p = Inr ms"
    and props: "\<forall>m \<in> set ms. mark_type m \<noteq> ''suggestion_insert'' \<and> mark_type m \<noteq> ''suggestion_delete''
            \<and> \<not> mark_excludes ?sch (mark_type m) ''suggestion_insert''"
    and it: "insert_text st p s = Inr T"
    and dr: "doc_replace ?d p p [Text ms s] = Inr d1"
    and ap: "apply_transaction fnsp fresh st T = Inr st2"
    and sch2: "es_schema st2 = ?sch" and pl2: "es_plugin st2 = es_plugin st"
    and mm: "map_marks_range (add_to_set ?sch ?M) d1 p (p + ?n) = Inr (es_doc st2)"
    by blast
  have tyM: "mark_type ?M = ''suggestion_insert''" by (simp add: create_mark_def)
  from s have n: "0 < ?n" by simp
  from s have "list_all nonempty_node [Text ms s]" by simp
  from nonempty_doc_replace[OF dr ne this] have ne1: "list_all nonempty_node d1" .
  from frag_size_doc_replace[OF dr] have sz1: "frag_size d1 = frag_size ?d + ?n" by simp
  with p have le1: "p + ?n \<le> frag_size d1" by simp
  note pt1 = ptypes_doc_replace_text[OF dr p]
  have lp: "length (take p (ptypes ?d)) = p" using p by simp
  have inner: "mark_type x \<noteq> mark_type ?M \<and> \<not> mark_excludes ?sch (mark_type x) (mark_type ?M)
                 \<and> \<not> is_suggestion_mark x"
    if i: "p \<le> i" "i < p + ?n" and x: "x \<in> set (snd (cells d1 ! i))" for i x
  proof -
    from i le1 have "i < frag_size d1" by simp
    from ptypes_nth[OF this] have "map mark_type (snd (cells d1 ! i)) = ptypes d1 ! i" by simp
    also have "ptypes d1 ! i = (map (\<lambda>c. map mark_type ms) s @ drop p (ptypes ?d)) ! (i - p)"
      unfolding pt1 using i(1) lp by (simp add: nth_append del: length_take)
    also have "\<dots> = map (\<lambda>c. map mark_type ms) s ! (i - p)"
    proof -
      from i have "i - p < length (map (\<lambda>c. map mark_type ms) s)" by simp
      then show ?thesis by (simp only: nth_append if_True)
    qed
    also have "\<dots> = map mark_type ms"
    proof -
      from i have "i - p < length s" by simp
      then show ?thesis by simp
    qed
    finally have "map mark_type (snd (cells d1 ! i)) = map mark_type ms" .
    then have "set (map mark_type (snd (cells d1 ! i))) = set (map mark_type ms)" by simp
    with x have "mark_type x \<in> mark_type ` set ms" by auto
    then obtain m where "m \<in> set ms" "mark_type x = mark_type m" by auto
    with props show ?thesis by (auto simp: tyM is_suggestion_mark_def)
  qed
  have left: "mark_type ?M \<notin> set (ptypes d1 ! (p - 1))" if p0: "0 < p"
  proof -
    from p0 p have i: "Suc (p - 1) = p" "p - 1 < frag_size ?d" by simp_all
    have "ptypes d1 ! (p - 1) = take p (ptypes ?d) ! (p - 1)"
      unfolding pt1 using p0 lp by (simp add: nth_append del: length_take)
    also have "\<dots> = ptypes ?d ! (p - 1)" using p0 by simp
    finally have "ptypes d1 ! (p - 1) = ptypes ?d ! (p - 1)" .
    with clean[rule_format, of "p - 1" "mark_type ?M"] i tyM show ?thesis by auto
  qed
  have right: "mark_type ?M \<notin> set (ptypes d1 ! (p + ?n))" if lt: "p + ?n < frag_size d1"
  proof -
    from lt sz1 have pl: "p < frag_size ?d" by simp
    have "ptypes d1 ! (p + ?n) = (map (\<lambda>c. map mark_type ms) s @ drop p (ptypes ?d)) ! ?n"
      unfolding pt1 using lp by (simp add: nth_append del: length_take)
    also have "\<dots> = drop p (ptypes ?d) ! 0" by (simp add: nth_append)
    also have "\<dots> = ptypes ?d ! p" using pl by simp
    finally have "ptypes d1 ! (p + ?n) = ptypes ?d ! p" .
    with clean[rule_format, of p "mark_type ?M"] pl tyM show ?thesis by auto
  qed
  have "\<exists>A S B. es_doc st2 = A @ S @ B \<and> frag_size A = p \<and> frag_size S = ?n \<and> S \<noteq> []
           \<and> list_all nonempty_node A \<and> list_all nonempty_node S \<and> list_all nonempty_node B
           \<and> (\<forall>x \<in> set S. ?M \<in> set (node_marks x)
                 \<and> (\<forall>y \<in> set (node_marks x). is_suggestion_mark y \<longrightarrow> y = ?M))
           \<and> scells A = take p (scells d1) \<and> scells B = drop (p + ?n) (scells d1)"
    by (rule mark_range_shape[OF ne1 le1 n inner left right mm])
  then obtain A S B where all:
    "es_doc st2 = A @ S @ B \<and> frag_size A = p \<and> frag_size S = ?n \<and> S \<noteq> []
           \<and> list_all nonempty_node A \<and> list_all nonempty_node S \<and> list_all nonempty_node B
           \<and> (\<forall>x \<in> set S. ?M \<in> set (node_marks x)
                 \<and> (\<forall>y \<in> set (node_marks x). is_suggestion_mark y \<longrightarrow> y = ?M))
           \<and> scells A = take p (scells d1) \<and> scells B = drop (p + ?n) (scells d1)"
    by (elim exE)
  note d2 = all[THEN conjunct1]
  note szA = all[THEN conjunct2, THEN conjunct1]
  note szS = all[THEN conjunct2, THEN conjunct2, THEN conjunct1]
  note Sne = all[THEN conjunct2, THEN conjunct2, THEN conjunct2, THEN conjunct1]
  note neA = all[THEN conjunct2, THEN conjunct2, THEN conjunct2, THEN conjunct2, THEN conjunct1]
  note neS = all[THEN conjunct2, THEN conjunct2, THEN conjunct2, THEN conjunct2, THEN conjunct2,
                 THEN conjunct1]
  note neB = all[THEN conjunct2, THEN conjunct2, THEN conjunct2, THEN conjunct2, THEN conjunct2,
                 THEN conjunct2, THEN conjunct1]
  note marks = all[THEN conjunct2, THEN conjunct2, THEN conjunct2, THEN conjunct2, THEN conjunct2,
                 THEN conjunct2, THEN conjunct2, THEN conjunct1]
  note scA = all[THEN conjunct2, THEN conjunct2, THEN conjunct2, THEN conjunct2, THEN conjunct2,
                 THEN conjunct2, THEN conjunct2, THEN conjunct2, THEN conjunct1]
  note scB = all[THEN conjunct2, THEN conjunct2, THEN conjunct2, THEN conjunct2, THEN conjunct2,
                 THEN conjunct2, THEN conjunct2, THEN conjunct2, THEN conjunct2]
  note sc1 = scells_doc_replace[OF dr]
  have lsp: "length (take p (scells ?d)) = p" using p by simp
  have lss: "length (scells [Text ms s]) = ?n" by (simp add: scells_Text)
  have tk: "take p (scells d1) = take p (scells ?d)"
    unfolding sc1 using lsp by (simp del: length_take)
  have dp: "drop (p + ?n) (scells d1) = drop p (scells ?d)"
    unfolding sc1 using lsp lss by (simp del: length_take)
  from scA tk have scA': "scells A = take p (scells ?d)" by simp
  from scB dp have scB': "scells B = drop p (scells ?d)" by simp
  have "ptoks (es_doc st2) = ptoks d1" by (rule ptoks_map_marks_range[OF mm]) simp
  also have "\<dots> = take p (ptoks ?d) @ map CU s @ drop p (ptoks ?d)"
    unfolding ptoks_scells sc1 by (simp add: take_map drop_map scells_Text comp_def)
  finally have "ptoks A @ ptoks S @ ptoks B = take p (ptoks ?d) @ map CU s @ drop p (ptoks ?d)"
    unfolding d2 by (simp add: ptoks_def)
  moreover have "length (ptoks A) = length (take p (ptoks ?d))"
    using szA p by (simp add: ptoks_def)
  ultimately have "ptoks S @ ptoks B = map CU s @ drop p (ptoks ?d)" by simp
  moreover have "length (ptoks S) = length (map CU s)" using szS by (simp add: ptoks_def)
  ultimately have pS: "ptoks S = map CU s" by simp
  from it ap sch2 pl2 d2 szA szS Sne neA neS neB marks scA' scB' pS show ?thesis by blast
qed

















text \<open>
  The same two characters in a schema whose suggestion marks are not inclusive: the
  second character gets a mark of its own, equal to the first, and the library joins the
  two text nodes under the first mark object.
\<close>

lemma two_characters_exclusive_schema:
  "(case insert_text ((example_state doc_plain)\<lparr>es_schema := exclusive_schema\<rparr>) 5 (asc ''X'') of
      Inr T1 \<Rightarrow>
        (case apply_transaction (\<lambda>d p. p) 100
                ((example_state doc_plain)\<lparr>es_schema := exclusive_schema\<rparr>) T1 of
           Inr st2 \<Rightarrow>
             (case insert_text st2 6 (asc ''Y'') of
                Inr T2 \<Rightarrow>
                  (case apply_transaction (\<lambda>d p. p) 101 st2 T2 of
                     Inr st3 \<Rightarrow>
                       es_doc st3 =
                         [Text [] (asc ''Hello''),
                          Text [create_mark ''suggestion_insert'' 100 ''alice'' []] (asc ''XY''),
                          Text [] (asc '' world'')]
                       \<and> findSuggestionsInRange st3 5 7
                           = Inr [\<lparr>mr_mark = create_mark ''suggestion_insert'' 100 ''alice'' [],
                                   mr_from = 5, mr_to = 7\<rparr>]
                   | _ \<Rightarrow> False)
              | _ \<Rightarrow> False)
         | _ \<Rightarrow> False)
    | _ \<Rightarrow> False)"
  by (simp add: eval_defs exclusive_schema_def Let_def)

text \<open>
  C8, as amended. Typing a non-empty text at a position of a normalised document, in a
  session with tracking on and with a transaction that carries no metadata of its own,
  and then rejecting the typed range, gives back a document equal to the one before
  typing (\<^verbatim>\<open>Node.eq\<close>: the same text and leaves with equal mark sets), provided that
  neither the position before nor the one after the cursor carries a pending mark or a
  mark whose type excludes \<^verbatim>\<open>suggestion_insert\<close>. Typing, the transformer and the reject
  command all return without an error.
\<close>

theorem typing_then_rejecting_restores_document:
  assumes wf: "wf_frag (es_doc st)" and p: "p \<le> frag_size (es_doc st)"
    and s: "s \<noteq> []" and on: "inSuggestionMode (es_plugin st)"
    and clean: "\<forall>i. (i = p \<or> Suc i = p) \<and> i < frag_size (es_doc st) \<longrightarrow>
                  (\<forall>ty \<in> set (ptypes (es_doc st) ! i).
                     ty \<noteq> ''suggestion_insert'' \<and> ty \<noteq> ''suggestion_delete''
                     \<and> \<not> mark_excludes (es_schema st) ty ''suggestion_insert'')"
  shows "\<exists>T st2 tr3. insert_text st p s = Inr T
           \<and> apply_transaction fnsp fresh st T = Inr st2
           \<and> rejectSuggestionsInRange p (p + length s) st2 True = Inr (True, Some tr3)
           \<and> doc_eq (tr_doc tr3) (es_doc st)"
proof -
  let ?d = "es_doc st" and ?n = "length s"
  let ?M = "create_mark ''suggestion_insert'' fresh (ps_username (es_plugin st))
              (obj_spread (ps_data (es_plugin st)) [])"
  from wf have ne: "list_all nonempty_node ?d" by (simp add: wf_frag_def)
  have "\<exists>T st2 A S B. insert_text st p s = Inr T
           \<and> apply_transaction fnsp fresh st T = Inr st2
           \<and> es_schema st2 = es_schema st \<and> es_plugin st2 = es_plugin st
           \<and> es_doc st2 = A @ S @ B \<and> frag_size A = p \<and> frag_size S = ?n \<and> S \<noteq> []
           \<and> list_all nonempty_node A \<and> list_all nonempty_node S \<and> list_all nonempty_node B
           \<and> (\<forall>x \<in> set S. ?M \<in> set (node_marks x)
                  \<and> (\<forall>y \<in> set (node_marks x). is_suggestion_mark y \<longrightarrow> y = ?M))
           \<and> scells A = take p (scells ?d) \<and> scells B = drop p (scells ?d)
           \<and> ptoks S = map CU s"
    by (rule typing_shape[OF ne p s on clean])
  then obtain T st2 A S B where all:
    "insert_text st p s = Inr T
           \<and> apply_transaction fnsp fresh st T = Inr st2
           \<and> es_schema st2 = es_schema st \<and> es_plugin st2 = es_plugin st
           \<and> es_doc st2 = A @ S @ B \<and> frag_size A = p \<and> frag_size S = ?n \<and> S \<noteq> []
           \<and> list_all nonempty_node A \<and> list_all nonempty_node S \<and> list_all nonempty_node B
           \<and> (\<forall>x \<in> set S. ?M \<in> set (node_marks x)
                  \<and> (\<forall>y \<in> set (node_marks x). is_suggestion_mark y \<longrightarrow> y = ?M))
           \<and> scells A = take p (scells ?d) \<and> scells B = drop p (scells ?d)
           \<and> ptoks S = map CU s"
    by (elim exE)
  note it = all[THEN conjunct1]
  note r1 = all[THEN conjunct2]
  note ap = r1[THEN conjunct1]
  note r4 = r1[THEN conjunct2, THEN conjunct2, THEN conjunct2]
  note d2 = r4[THEN conjunct1]
  note r5 = r4[THEN conjunct2]
  note szA = r5[THEN conjunct1]
  note r6 = r5[THEN conjunct2]
  note szS = r6[THEN conjunct1]
  note r7 = r6[THEN conjunct2]
  note Sne = r7[THEN conjunct1]
  note r8 = r7[THEN conjunct2]
  note neA = r8[THEN conjunct1]
  note r9 = r8[THEN conjunct2]
  note neS = r9[THEN conjunct1]
  note r10 = r9[THEN conjunct2]
  note neB = r10[THEN conjunct1]
  note r11 = r10[THEN conjunct2]
  note marks = r11[THEN conjunct1]
  note r12 = r11[THEN conjunct2]
  note scA = r12[THEN conjunct1]
  note scB = r12[THEN conjunct2, THEN conjunct1]
  have tyM: "mark_type ?M = ''suggestion_insert''" by (simp add: create_mark_def)
  from reject_single[OF d2 szA szS Sne neA neS neB tyM marks]
  obtain tr3 where rj: "rejectSuggestionsInRange p (p + ?n) st2 True = Inr (True, Some tr3)"
    and sc3: "scells (tr_doc tr3) = scells A @ scells B" and wf3: "wf_frag (tr_doc tr3)"
    by blast
  from sc3 scA scB have "scells (tr_doc tr3) = scells ?d" by simp
  from doc_eq_of_scells[OF wf3 wf this] have "doc_eq (tr_doc tr3) ?d" .
  with it ap rj show ?thesis by blast
qed

theorem typing_then_rejecting_restores_document_witness:
  "wf_frag (es_doc (example_state doc_plain))
   \<and> (\<exists>T st2 tr3. insert_text (example_state doc_plain) 5 (asc ''X'') = Inr T
           \<and> apply_transaction (\<lambda>d p. p) 100 (example_state doc_plain) T = Inr st2
           \<and> rejectSuggestionsInRange 5 (5 + length (asc ''X'')) st2 True = Inr (True, Some tr3)
           \<and> doc_eq (tr_doc tr3) (es_doc (example_state doc_plain)))"
proof -
  let ?st = "example_state doc_plain"
  have h1: "wf_frag (es_doc ?st)"
    by (simp add: wf_frag_def example_state_def doc_plain_def asc_def)
  have h2: "5 \<le> frag_size (es_doc ?st)"
    by (simp add: example_state_def doc_plain_def asc_def)
  have h3: "asc ''X'' \<noteq> []" by (simp add: asc_def)
  have h4: "inSuggestionMode (es_plugin ?st)" by (simp add: example_state_def)
  have h5: "\<forall>i. (i = 5 \<or> Suc i = 5) \<and> i < frag_size (es_doc ?st) \<longrightarrow>
                  (\<forall>ty \<in> set (ptypes (es_doc ?st) ! i).
                     ty \<noteq> ''suggestion_insert'' \<and> ty \<noteq> ''suggestion_delete''
                     \<and> \<not> mark_excludes (es_schema ?st) ty ''suggestion_insert'')"
    by (auto simp: ptypes_def example_state_def doc_plain_def asc_def)
  from typing_then_rejecting_restores_document[OF h1 h2 h3 h4 h5, of "\<lambda>d p. p" 100] h1 show ?thesis by blast
qed

text \<open>
  Without the proviso the round trip fails: ``XY'' typed inside a pending deletion takes
  over the deletion mark (the transformer extends it and creates no insertion mark), and
  rejecting the typed range then strips the deletion mark from the whole span and keeps
  the typed text.
\<close>

theorem typing_inside_pending_deletion_counterexample:
  "(case insert_text (example_state doc_abcd_deleted) 2 (asc ''XY'') of
      Inr T \<Rightarrow>
        (case apply_transaction (\<lambda>d p. p) 100 (example_state doc_abcd_deleted) T of
           Inr st2 \<Rightarrow>
             (case rejectSuggestionsInRange 2 4 st2 True of
                Inr (b, Some tr3) \<Rightarrow>
                  b \<and> es_doc st2 = [Text [example_mark 1 ''suggestion_delete''] (asc ''abXYcd'')]
                  \<and> tr_doc tr3 = [Text [] (asc ''abXYcd'')]
                  \<and> \<not> doc_eq (tr_doc tr3) (es_doc (example_state doc_abcd_deleted))
              | _ \<Rightarrow> False)
         | _ \<Rightarrow> False)
    | _ \<Rightarrow> False)"
  by (simp add: eval_defs doc_abcd_deleted_def doc_eq_def Let_def)

lemma upt_split: "i \<le> j \<Longrightarrow> j \<le> k \<Longrightarrow> [i..<k] = [i..<j] @ [j..<k]"
  using upt_add_eq_append[of i j "k - j"] by simp

lemma filter_upt2:
  assumes "i \<le> j" "j \<le> k"
  shows "filter P [i..<k] = filter P [i..<j] @ filter P [j..<k]"
  using arg_cong[OF upt_split[OF assms], of "filter P"] by simp

lemma take_filter_upt:
  assumes "f \<le> n"
  shows "take (length (filter P [0..<f])) (filter P [0..<n]) = filter P [0..<f]"
    and "drop (length (filter P [0..<f])) (filter P [0..<n]) = filter P [f..<n]"
  using filter_upt2[of 0 f n P] assms by simp_all

lemma mid_filter_upt:
  assumes "f \<le> t" "t \<le> n"
  shows "take (length (filter P [0..<t]) - length (filter P [0..<f]))
           (drop (length (filter P [0..<f])) (filter P [0..<n])) = filter P [f..<t]"
proof -
  have len: "length (filter P [0..<t]) - length (filter P [0..<f]) = length (filter P [f..<t])"
    using filter_upt2[of 0 f t P] assms by simp
  from assms have fn: "f \<le> n" by simp
  have "filter P [f..<n] = filter P [f..<t] @ filter P [t..<n]"
    by (rule filter_upt2[OF assms])
  then show ?thesis unfolding len take_filter_upt(2)[OF fn] by simp
qed

lemma count_mono: "p \<le> q \<Longrightarrow> length (filter P [0..<p]) \<le> length (filter P [0..<q])"
  using filter_upt2[of 0 p q P] by simp

text \<open>The position map after deleting the surviving positions of \<open>[f, t)\<close>.\<close>

lemma count_delmap:
  assumes ft: "f \<le> t"
    and P': "\<And>x. P' x = (P x \<and> \<not> (f \<le> x \<and> x < t))"
  shows "length (filter P' [0..<p])
         = delmap (length (filter P [0..<f]))
             (length (filter P [0..<t]) - length (filter P [0..<f]))
             (length (filter P [0..<p]))"
proof -
  let ?c = "\<lambda>p. length (filter P [0..<p])"
  have FT: "?c f \<le> ?c t" by (rule count_mono[OF ft])
  have low: "filter P' [0..<q] = filter P [0..<q]" if "q \<le> f" for q
    using that by (intro filter_cong) (simp_all add: P')
  have mid: "filter P' [f..<q] = []" if "q \<le> t" for q
    using that by (simp add: filter_empty_conv P')
  have high: "filter P' [t..<q] = filter P [t..<q]" for q
    by (intro filter_cong) (simp_all add: P')
  consider "p \<le> f" | "f < p" "p \<le> t" | "t < p" by linarith
  then show ?thesis
  proof cases
    case 1
    then have a: "length (filter P' [0..<p]) = ?c p" by (simp add: low)
    from 1 have "?c p \<le> ?c f" by (rule count_mono)
    then show ?thesis unfolding a delmap_def using FT by simp
  next
    case 2
    then have "filter P' [0..<p] = filter P' [0..<f] @ filter P' [f..<p]"
      by (intro filter_upt2) simp_all
    then have a: "length (filter P' [0..<p]) = ?c f" using 2 by (simp add: low mid)
    from 2 have "?c f \<le> ?c p" "?c p \<le> ?c t" by (simp_all add: count_mono)
    then show ?thesis unfolding a delmap_def by simp
  next
    case 3
    with ft have "filter P' [0..<p] = filter P' [0..<f] @ filter P' [f..<p]"
      by (intro filter_upt2) simp_all
    moreover from 3 ft have "filter P' [f..<p] = filter P' [f..<t] @ filter P' [t..<p]"
      by (intro filter_upt2) simp_all
    ultimately have a: "length (filter P' [0..<p]) = ?c f + length (filter P [t..<p])"
      by (simp add: low mid high)
    from 3 have "filter P [0..<p] = filter P [0..<t] @ filter P [t..<p]"
      by (intro filter_upt2) simp_all
    then have b: "?c p = ?c t + length (filter P [t..<p])" by simp
    show ?thesis unfolding a delmap_def using b FT by simp
  qed
qed

lemma deleted_by_snoc:
  "deleted_by a (ps @ [s]) x
   = (deleted_by a ps x \<or> (mark_type (mr_mark s) = markToDelete a \<and> in_span s x))"
  by (simp add: deleted_by_def)

lemma unmarked_by_snoc:
  "unmarked_by a (ps @ [s]) ty x
   = (unmarked_by a ps ty x
      \<or> (mark_type (mr_mark s) = ty \<and> ty \<noteq> markToDelete a \<and> in_span s x))"
  by (simp add: unmarked_by_def)

lemma resolved_cells_Nil: "resolved_cells a [] sc = sc"
proof -
  have "resolved_cells a [] sc = map (\<lambda>x. sc ! x) [0..<length sc]"
    by (simp add: resolved_cells_def deleted_by_def unmarked_by_def)
  then show ?thesis by (simp add: map_nth)
qed

lemma resolver_step:
  assumes inv: "scells (tr_doc tr) = resolved_cells a ps sc"
    and maps: "\<forall>p \<le> length sc. mapping_map (tr_mapping tr) p
                 = length (filter (\<lambda>x. \<not> deleted_by a ps x) [0..<p])"
    and fit: "spans_fit tr (s # ss)"
    and ft: "mr_from s \<le> mr_to s" and tn: "mr_to s \<le> length sc"
    and ps: "process_suggestion sch a tr s = Inr tr'"
  shows "scells (tr_doc tr') = resolved_cells a (ps @ [s]) sc
       \<and> (\<forall>p \<le> length sc. mapping_map (tr_mapping tr') p
                 = length (filter (\<lambda>x. \<not> deleted_by a (ps @ [s]) x) [0..<p]))"
proof -
  let ?n = "length sc"
  let ?f = "mr_from s" and ?t = "mr_to s"
  let ?P = "\<lambda>x. \<not> deleted_by a ps x"
  let ?P' = "\<lambda>x. \<not> deleted_by a (ps @ [s]) x"
  let ?g = "\<lambda>x. (fst (sc ! x), filter (\<lambda>k. \<not> unmarked_by a ps (fst k) x) (snd (sc ! x)))"
  let ?g' = "\<lambda>x. (fst (sc ! x), filter (\<lambda>k. \<not> unmarked_by a (ps @ [s]) (fst k) x) (snd (sc ! x)))"
  let ?M = "mapping_map (tr_mapping tr)"
  let ?c = "\<lambda>p. length (filter ?P [0..<p])"
  let ?SC = "scells (tr_doc tr)"
  from ft tn have fn: "?f \<le> ?n" by simp
  from maps fn tn have F: "?M ?f = ?c ?f" and T: "?M ?t = ?c ?t" by simp_all
  have SC: "?SC = map ?g (filter ?P [0..<?n])" using inv by (simp add: resolved_cells_def)
  have tk: "take (?c ?f) ?SC = map ?g (filter ?P [0..<?f])"
    unfolding SC take_map take_filter_upt(1)[OF fn] ..
  have dr: "drop (?c ?t) ?SC = map ?g (filter ?P [?t..<?n])"
    unfolding SC drop_map take_filter_upt(2)[OF tn] ..
  have md: "take (?c ?t - ?c ?f) (drop (?c ?f) ?SC) = map ?g (filter ?P [?f..<?t])"
    unfolding SC drop_map take_map mid_filter_upt[OF ft tn] ..
  from process_suggestion_effect[OF fit, of sch a] ps
  have eff: "(if mark_type (mr_mark s) = markToDelete a
          then scells (tr_doc tr') = take (?M ?f) ?SC @ drop (?M ?t) ?SC
             \<and> (\<forall>p. mapping_map (tr_mapping tr') p = delmap (?M ?f) (?M ?t - ?M ?f) (?M p))
          else scells (tr_doc tr') =
                 take (?M ?f) ?SC
                 @ map (\<lambda>c. (fst c, filter (\<lambda>k. fst k \<noteq> mark_type (mr_mark s)) (snd c)))
                     (take (?M ?t - ?M ?f) (drop (?M ?f) ?SC))
                 @ drop (?M ?t) ?SC
             \<and> (\<forall>p. mapping_map (tr_mapping tr') p = ?M p))"
    by (auto split: if_splits)
  have split3: "filter Q [0..<?n] = filter Q [0..<?f] @ filter Q [?f..<?t] @ filter Q [?t..<?n]" for Q
    using filter_upt2[of 0 ?f ?n Q] filter_upt2[of ?f ?t ?n Q] ft tn fn by simp
  show ?thesis
  proof (cases "mark_type (mr_mark s) = markToDelete a")
    case True
    with eff have sc': "scells (tr_doc tr') = take (?M ?f) ?SC @ drop (?M ?t) ?SC"
      and mp: "\<And>p. mapping_map (tr_mapping tr') p = delmap (?M ?f) (?M ?t - ?M ?f) (?M p)"
      by simp_all
    have P': "?P' x = (?P x \<and> \<not> (?f \<le> x \<and> x < ?t))" for x
      using True by (simp add: deleted_by_snoc in_span_def)
    have g': "?g' = ?g" using True by (simp add: unmarked_by_snoc)
    have low: "filter ?P' [0..<?f] = filter ?P [0..<?f]"
      by (intro filter_cong) (simp_all add: P')
    have mid: "filter ?P' [?f..<?t] = []" by (simp add: filter_empty_conv P')
    have high: "filter ?P' [?t..<?n] = filter ?P [?t..<?n]"
      by (intro filter_cong) (simp_all add: P')
    have "resolved_cells a (ps @ [s]) sc = map ?g' (filter ?P' [0..<?n])"
      by (simp add: resolved_cells_def)
    also have "\<dots> = map ?g (filter ?P [0..<?f]) @ map ?g (filter ?P [?t..<?n])"
      unfolding g' split3[of ?P'] low mid high by simp
    also have "\<dots> = scells (tr_doc tr')" unfolding sc' F T tk dr ..
    finally have A: "scells (tr_doc tr') = resolved_cells a (ps @ [s]) sc" by simp
    have B: "mapping_map (tr_mapping tr') p = length (filter ?P' [0..<p])" if "p \<le> ?n" for p
    proof -
      from maps that have "?M p = ?c p" by simp
      with mp[of p] F T count_delmap[OF ft, of ?P' ?P p] P' show ?thesis by simp
    qed
    from A B show ?thesis by simp
  next
    case False
    let ?ty = "mark_type (mr_mark s)"
    let ?h = "\<lambda>c. (fst c, filter (\<lambda>k. fst k \<noteq> ?ty) (snd c))"
    from False eff have sc': "scells (tr_doc tr') =
                 take (?M ?f) ?SC @ map ?h (take (?M ?t - ?M ?f) (drop (?M ?f) ?SC)) @ drop (?M ?t) ?SC"
      and mp: "\<And>p. mapping_map (tr_mapping tr') p = ?M p"
      by simp_all
    have P': "?P' = ?P" using False by (simp add: deleted_by_snoc)
    have un: "unmarked_by a (ps @ [s]) ty x = (unmarked_by a ps ty x \<or> (?ty = ty \<and> in_span s x))"
      for ty x using False by (auto simp: unmarked_by_snoc)
    have low: "map ?g' (filter ?P [0..<?f]) = map ?g (filter ?P [0..<?f])"
      by (intro map_cong refl) (simp add: un in_span_def)
    have high: "map ?g' (filter ?P [?t..<?n]) = map ?g (filter ?P [?t..<?n])"
      by (intro map_cong refl) (simp add: un in_span_def)
    have mid: "map ?g' (filter ?P [?f..<?t]) = map ?h (map ?g (filter ?P [?f..<?t]))"
    proof -
      have "?g' x = ?h (?g x)" if "x \<in> set (filter ?P [?f..<?t])" for x
      proof -
        from that have "in_span s x" by (simp add: in_span_def)
        then have "\<not> unmarked_by a (ps @ [s]) (fst k) x
                   \<longleftrightarrow> \<not> unmarked_by a ps (fst k) x \<and> fst k \<noteq> ?ty" for k :: "string \<times> 'a"
          by (auto simp: un)
        then have "filter (\<lambda>k. \<not> unmarked_by a (ps @ [s]) (fst k) x) (snd (sc ! x))
                   = filter (\<lambda>k. \<not> unmarked_by a ps (fst k) x \<and> fst k \<noteq> ?ty) (snd (sc ! x))"
          by (intro filter_cong refl)
        then show ?thesis by simp
      qed
      then show ?thesis by (simp cong: map_cong)
    qed
    have "resolved_cells a (ps @ [s]) sc = map ?g' (filter ?P [0..<?n])"
      by (simp add: resolved_cells_def P')
    also have "\<dots> = map ?g (filter ?P [0..<?f]) @ map ?h (map ?g (filter ?P [?f..<?t]))
                      @ map ?g (filter ?P [?t..<?n])"
      unfolding split3[of ?P] map_append low mid high ..
    also have "\<dots> = scells (tr_doc tr')" unfolding sc' F T tk dr md ..
    finally have A: "scells (tr_doc tr') = resolved_cells a (ps @ [s]) sc" by simp
    have B: "mapping_map (tr_mapping tr') p = length (filter ?P' [0..<p])" if "p \<le> ?n" for p
      using maps that by (simp add: mp P')
    from A B show ?thesis by simp
  qed
qed

lemma resolver_all:
  assumes "scells (tr_doc tr) = resolved_cells a ps sc"
    and "\<forall>p \<le> length sc. mapping_map (tr_mapping tr) p
                 = length (filter (\<lambda>x. \<not> deleted_by a ps x) [0..<p])"
    and "spans_fit tr ss"
    and "list_all (\<lambda>s. mr_from s \<le> mr_to s \<and> mr_to s \<le> length sc) ss"
    and "process_suggestions sch a tr ss = Inr tr'"
  shows "scells (tr_doc tr') = resolved_cells a (ps @ ss) sc"
  using assms
proof (induction ss arbitrary: tr ps)
  case Nil
  then show ?case by simp
next
  case (Cons s ss)
  from process_suggestion_effect[OF Cons.prems(3), of sch a] obtain tr1 where
    p: "process_suggestion sch a tr s = Inr tr1" and f: "spans_fit tr1 ss" by blast
  from Cons.prems(4) have b: "mr_from s \<le> mr_to s" "mr_to s \<le> length sc"
    and rest: "list_all (\<lambda>s. mr_from s \<le> mr_to s \<and> mr_to s \<le> length sc) ss" by simp_all
  from resolver_step[OF Cons.prems(1,2,3) b p]
  have i1: "scells (tr_doc tr1) = resolved_cells a (ps @ [s]) sc"
    and i2: "\<forall>p \<le> length sc. mapping_map (tr_mapping tr1) p
                 = length (filter (\<lambda>x. \<not> deleted_by a (ps @ [s]) x) [0..<p])" by simp_all
  from Cons.prems(5) p have "process_suggestions sch a tr1 ss = Inr tr'" by simp
  from Cons.IH[OF i1 i2 f rest this] show ?case by simp
qed

text \<open>
  C1, as amended. An accept (reject) call that has located spans dispatches a transaction
  whose document is the original one without the positions that lie in the range of a
  located span of the kind removed as content (\<^verbatim>\<open>suggestion_delete\<close> on accept,
  \<^verbatim>\<open>suggestion_insert\<close> on reject), in their order. So each such span has the text of
  its range removed, and each span of the other kind keeps the text of its range except
  the positions that a removed span of the same call also covers; on what it keeps, the
  marks of its type are gone and every other mark stays.
\<close>

theorem spans_are_deleted_or_unmarked:
  assumes rs: "findSuggestionsInRange state from to = Inr rs" and ne: "rs \<noteq> []"
  shows "\<exists>tr. processSuggestionsInRange a from to state True = Inr (True, Some tr)
      \<and> acceptSuggestionsInRange from to = processSuggestionsInRange Accept from to
      \<and> rejectSuggestionsInRange from to = processSuggestionsInRange Reject from to
      \<and> markToDelete Accept = ''suggestion_delete'' \<and> markToDelete Reject = ''suggestion_insert''
      \<and> ptoks (tr_doc tr) =
          map (\<lambda>x. ptoks (es_doc state) ! x)
            (filter (\<lambda>x. \<not> deleted_by a rs x) [0..<frag_size (es_doc state)])
      \<and> ptypes (tr_doc tr) =
          map (\<lambda>x. filter (\<lambda>ty. \<not> unmarked_by a rs ty x) (ptypes (es_doc state) ! x))
            (filter (\<lambda>x. \<not> deleted_by a rs x) [0..<frag_size (es_doc state)])"
proof -
  let ?d = "es_doc state" and ?sc = "scells (es_doc state)"
  let ?n = "frag_size ?d"
  let ?tr0 = "(state_tr state)\<lparr>tr_meta := Some skip_meta\<rparr>"
  let ?L = "filter (\<lambda>x. \<not> deleted_by a rs x) [0..<?n]"
  have d0: "tr_doc ?tr0 = ?d" and s0: "tr_steps ?tr0 = []" by (simp_all add: state_tr_def)
  have fit: "spans_fit ?tr0 rs" by (rule located_spans_fit[OF rs d0 s0])
  from process_suggestions_fit[of ?tr0 rs "[]" "es_schema state" a] fit obtain tr where
    tr: "process_suggestions (es_schema state) a ?tr0 rs = Inr tr" by auto
  have first: "processSuggestionsInRange a from to state True = Inr (True, Some tr)"
    using rs ne tr by (simp add: processSuggestionsInRange_def)
  from findSuggestionsInRange_Inr[OF rs]
  have rs': "rs = map to_marked_range (collect_ranges (overlapping ?d from to))" by simp
  have bounds: "list_all (\<lambda>s. mr_from s \<le> mr_to s \<and> mr_to s \<le> length ?sc) rs"
    unfolding list_all_iff
  proof
    fix s assume "s \<in> set rs"
    with rs' obtain e where e: "e \<in> set (collect_ranges (overlapping ?d from to))"
      and s: "s = to_marked_range e" by auto
    obtain m f t where mft: "e = (m, f, t)" by (cases e) auto
    from located_span_bounds[OF e[unfolded mft]] s mft
    show "mr_from s \<le> mr_to s \<and> mr_to s \<le> length ?sc" by (simp add: to_marked_range_def)
  qed
  have i1: "scells (tr_doc ?tr0) = resolved_cells a [] ?sc" by (simp add: resolved_cells_Nil d0)
  have i2: "\<forall>p \<le> length ?sc. mapping_map (tr_mapping ?tr0) p
                 = length (filter (\<lambda>x. \<not> deleted_by a [] x) [0..<p])"
    by (simp add: tr_mapping_def s0 deleted_by_def)
  from resolver_all[OF i1 i2 fit bounds tr]
  have sc: "scells (tr_doc tr) = resolved_cells a rs ?sc" by simp
  have lt: "x < ?n" if "x \<in> set ?L" for x using that by simp
  have toks: "ptoks (tr_doc tr) = map (\<lambda>x. ptoks ?d ! x) ?L"
  proof -
    have "ptoks (tr_doc tr) = map (\<lambda>x. fst (?sc ! x)) ?L"
      by (simp add: ptoks_scells sc resolved_cells_def comp_def)
    also have "\<dots> = map (\<lambda>x. ptoks ?d ! x) ?L"
      by (intro map_cong refl) (simp add: ptoks_scells)
    finally show ?thesis .
  qed
  have types: "ptypes (tr_doc tr) =
          map (\<lambda>x. filter (\<lambda>ty. \<not> unmarked_by a rs ty x) (ptypes ?d ! x)) ?L"
  proof -
    have "ptypes (tr_doc tr)
          = map (\<lambda>x. map fst (filter (\<lambda>k. \<not> unmarked_by a rs (fst k) x) (snd (?sc ! x)))) ?L"
      by (simp add: ptypes_scells sc resolved_cells_def comp_def)
    also have "\<dots> = map (\<lambda>x. filter (\<lambda>ty. \<not> unmarked_by a rs ty x) (ptypes ?d ! x)) ?L"
      by (intro map_cong refl) (simp add: ptypes_scells filter_map comp_def)
    finally show ?thesis .
  qed
  have kinds: "markToDelete Accept = ''suggestion_delete''" "markToDelete Reject = ''suggestion_insert''"
    by (simp_all add: markToDelete_def)
  have wr: "acceptSuggestionsInRange from to = processSuggestionsInRange Accept from to"
    "rejectSuggestionsInRange from to = processSuggestionsInRange Reject from to"
    by (simp_all add: acceptSuggestionsInRange_def rejectSuggestionsInRange_def)
  from first wr kinds toks types show ?thesis by blast
qed

theorem spans_are_deleted_or_unmarked_witness:
  "findSuggestionsInRange (example_state doc_two_spans) 0 8 =
     Inr ([\<lparr>mr_mark = example_mark 1 ''suggestion_delete'', mr_from = 0, mr_to = 2\<rparr>]
          @ \<lparr>mr_mark = example_mark 2 ''suggestion_insert'', mr_from = 4, mr_to = 6\<rparr> # [])
   \<and> (case acceptSuggestionsInRange 0 8 (example_state doc_two_spans) True of
         Inr (b, Some tr) \<Rightarrow> b \<and> tr_doc tr = [Text [] (asc ''cdefgh'')]
       | _ \<Rightarrow> False)
   \<and> (case rejectSuggestionsInRange 0 8 (example_state doc_two_spans) True of
         Inr (b, Some tr) \<Rightarrow> b \<and> tr_doc tr = [Text [] (asc ''abcdgh'')]
       | _ \<Rightarrow> False)"
proof -
  have a: "findSuggestionsInRange (example_state doc_two_spans) 0 8 =
     Inr ([\<lparr>mr_mark = example_mark 1 ''suggestion_delete'', mr_from = 0, mr_to = 2\<rparr>]
          @ \<lparr>mr_mark = example_mark 2 ''suggestion_insert'', mr_from = 4, mr_to = 6\<rparr> # [])"
    by (simp add: eval_defs2)
  have n: "[\<lparr>mr_mark = example_mark 1 ''suggestion_delete'', mr_from = 0, mr_to = 2\<rparr>]
          @ \<lparr>mr_mark = example_mark 2 ''suggestion_insert'', mr_from = 4, mr_to = 6\<rparr> # [] \<noteq> []"
    by simp
  have b: "(case acceptSuggestionsInRange 0 8 (example_state doc_two_spans) True of
         Inr (b, Some tr) \<Rightarrow> b \<and> tr_doc tr = [Text [] (asc ''cdefgh'')]
       | _ \<Rightarrow> False)"
    by (simp add: eval_defs2 Let_def)
  have c: "(case rejectSuggestionsInRange 0 8 (example_state doc_two_spans) True of
         Inr (b, Some tr) \<Rightarrow> b \<and> tr_doc tr = [Text [] (asc ''abcdgh'')]
       | _ \<Rightarrow> False)"
    by (simp add: eval_defs2 Let_def)
  from spans_are_deleted_or_unmarked[OF a n, of Accept] a b c show ?thesis by blast
qed

text \<open>
  The claim as written fails where spans overlap: in ``abcd'' with a pending insertion on
  ``ab'' and a pending deletion on ``bc'', accepting locates the insertion 0..2 and the
  deletion 1..3 and leaves ``ad''; the accepted insertion has lost its ``b''.
\<close>

theorem accepted_insertion_loses_text_counterexample:
  "findSuggestionsInRange (example_state doc_overlap) 0 4 =
     Inr ([\<lparr>mr_mark = example_mark 1 ''suggestion_insert'', mr_from = 0, mr_to = 2\<rparr>]
          @ \<lparr>mr_mark = example_mark 2 ''suggestion_delete'', mr_from = 1, mr_to = 3\<rparr> # [])
   \<and> take 2 (ptoks doc_overlap) = map CU (asc ''ab'')
   \<and> (case acceptSuggestionsInRange 0 4 (example_state doc_overlap) True of
         Inr (b, Some tr) \<Rightarrow>
           b \<and> ptoks (tr_doc tr) = map CU (asc ''ad'')
           \<and> CU (of_char CHR ''b'') \<notin> set (ptoks (tr_doc tr))
       | _ \<Rightarrow> False)"
  by (simp add: eval_defs doc_overlap_def ptoks_def Let_def)

end
